theory Spec2Isabelle
  imports Complex_Main "HOL-Library.Word"
begin

section \<open>Machine types\<close>

text \<open>
  Go's \<^verbatim>\<open>uint\<close> is modelled at its width on 64-bit platforms: arithmetic wraps around
  modulo \<open>2 ^ 64\<close>.
\<close>

type_synonym uint = "64 word"

text \<open>
  A \<^verbatim>\<open>float64\<close> is an extended real: the special values of IEEE 754 are kept apart,
  because the comparisons and the division of the source behave differently on them
  (\<open>0 / 0\<close> is NaN, every comparison with NaN is false). The finite values are the
  doubles, and every arithmetic result is rounded to the nearest double, ties to the even
  significand, as the hardware does. The sign of zero is not modelled.
\<close>

datatype float64 = Finite real | PosInf | NegInf | NaN

text \<open>Rounding to the nearest integer, a tie to the even one.\<close>

definition round_even :: "real \<Rightarrow> int" where
  "round_even x =
     (let f = \<lfloor>x\<rfloor>; d = x - of_int f
      in if d < 1 / 2 then f else if 1 / 2 < d then f + 1 else if even f then f else f + 1)"

text \<open>
  The binary exponent of a double: the \<open>e\<close> with \<open>2 ^ e \<le> \<bar>x\<bar> < 2 ^ (e + 1)\<close>, found by
  counting up from the least normal exponent \<open>- 1022\<close>, where the subnormal numbers and
  zero stay, to 1024 at most, where everything overflows.
\<close>

fun exponent_from :: "nat \<Rightarrow> int \<Rightarrow> real \<Rightarrow> int" where
  "exponent_from 0 e x = e"
| "exponent_from (Suc n) e x = (if 2 powi (e + 1) \<le> x then exponent_from n (e + 1) x else e)"

definition float64_exponent :: "real \<Rightarrow> int" where
  "float64_exponent x = exponent_from 2046 (- 1022) \<bar>x\<bar>"

text \<open>
  The nearest number with a significand of 53 bits: the multiple of \<open>2 ^ (e - 52)\<close>
  nearest to \<open>x\<close>. It overflows to an infinity from \<open>2 ^ 1024\<close> on.
\<close>

definition float64_nearest :: "real \<Rightarrow> real" where
  "float64_nearest x =
     (let q = float64_exponent x - 52 in of_int (round_even (x / 2 powi q)) * 2 powi q)"

definition float64_round :: "real \<Rightarrow> float64" where
  "float64_round x =
     (let r = float64_nearest x
      in if 2 ^ 1024 \<le> \<bar>r\<bar> then (if 0 < x then PosInf else NegInf) else Finite r)"

text \<open>The conversion \<^verbatim>\<open>float64(u)\<close> rounds: not every \<^verbatim>\<open>uint\<close> above \<open>2 ^ 53\<close> is a double.\<close>

definition float64_of_uint :: "uint \<Rightarrow> float64" where
  "float64_of_uint u = float64_round (of_int (uint u))"

fun float64_lt :: "float64 \<Rightarrow> float64 \<Rightarrow> bool" where
  "float64_lt (Finite x) (Finite y) = (x < y)"
| "float64_lt (Finite x) PosInf = True"
| "float64_lt NegInf (Finite y) = True"
| "float64_lt NegInf PosInf = True"
| "float64_lt _ _ = False"

definition float64_gt :: "float64 \<Rightarrow> float64 \<Rightarrow> bool" where
  "float64_gt x y = float64_lt y x"

fun float64_eq :: "float64 \<Rightarrow> float64 \<Rightarrow> bool" where
  "float64_eq (Finite x) (Finite y) = (x = y)"
| "float64_eq PosInf PosInf = True"
| "float64_eq NegInf NegInf = True"
| "float64_eq _ _ = False"

fun float64_div :: "float64 \<Rightarrow> float64 \<Rightarrow> float64" where
  "float64_div (Finite x) (Finite y) =
     (if y = 0 then (if x = 0 then NaN else if 0 < x then PosInf else NegInf)
      else float64_round (x / y))"
| "float64_div (Finite x) PosInf = Finite 0"
| "float64_div (Finite x) NegInf = Finite 0"
| "float64_div PosInf (Finite y) = (if y < 0 then NegInf else PosInf)"
| "float64_div NegInf (Finite y) = (if y < 0 then PosInf else NegInf)"
| "float64_div _ _ = NaN"

fun float64_mul :: "float64 \<Rightarrow> float64 \<Rightarrow> float64" where
  "float64_mul (Finite x) (Finite y) = float64_round (x * y)"
| "float64_mul (Finite x) PosInf = (if x = 0 then NaN else if 0 < x then PosInf else NegInf)"
| "float64_mul (Finite x) NegInf = (if x = 0 then NaN else if 0 < x then NegInf else PosInf)"
| "float64_mul PosInf (Finite y) = (if y = 0 then NaN else if 0 < y then PosInf else NegInf)"
| "float64_mul NegInf (Finite y) = (if y = 0 then NaN else if 0 < y then NegInf else PosInf)"
| "float64_mul PosInf PosInf = PosInf"
| "float64_mul NegInf NegInf = PosInf"
| "float64_mul PosInf NegInf = NegInf"
| "float64_mul NegInf PosInf = NegInf"
| "float64_mul _ _ = NaN"

text \<open>
  \<^verbatim>\<open>math.Log\<close> and \<^verbatim>\<open>math.Log1p\<close>, with the special cases of their documentation. Their
  results are taken as correctly rounded; the library promises an error below one unit
  in the last place, so its result can be the neighbouring double.
\<close>

fun math_Log :: "float64 \<Rightarrow> float64" where
  "math_Log (Finite x) =
     (if x < 0 then NaN else if x = 0 then NegInf else float64_round (ln x))"
| "math_Log PosInf = PosInf"
| "math_Log _ = NaN"

fun math_Log1p :: "float64 \<Rightarrow> float64" where
  "math_Log1p (Finite x) =
     (if x < - 1 then NaN else if x = - 1 then NegInf else float64_round (ln (1 + x)))"
| "math_Log1p PosInf = PosInf"
| "math_Log1p _ = NaN"

text \<open>
  \<^verbatim>\<open>math.Pow(float64(x), float64(y))\<close> for unsigned integers \<open>x\<close> and \<open>y\<close>: both arguments
  are finite, non-negative and integral, where Pow is the power with \<open>Pow(x, 0) = 1\<close>
  for every \<open>x\<close>, taken as correctly rounded. The base is the double \<^verbatim>\<open>float64(x)\<close>; the
  rounding of the exponent changes nothing, since a power with an exponent above \<open>2 ^ 53\<close>
  is 0, 1 or an overflow.
\<close>

definition math_Pow_uint :: "uint \<Rightarrow> uint \<Rightarrow> float64" where
  "math_Pow_uint x y = float64_round (float64_nearest (of_int (uint x)) ^ unat y)"

section \<open>Errors and panics\<close>

datatype error =
    ErrInvalidBinWidth uint
  | ErrInvalidLogBase uint
  | ErrInvalidPrank float64
  | PanicMessage string
  | PanicNilDereference
  | PanicDivideByZero
  | InvalidAddress
  | ImplementationDependent

text \<open>
  The first three are the \<^verbatim>\<open>error\<close> values the source returns, the next three are its
  panics (its own and the runtime's). The last two belong to the model:
  \<open>InvalidAddress\<close> is a pointer to a cell that was never allocated, which no Go
  program can hold, and \<open>ImplementationDependent\<close> is the conversion to \<^verbatim>\<open>uint\<close> of a
  float that \<^verbatim>\<open>uint\<close> cannot represent, whose result Go leaves to the implementation.
\<close>

definition float64_to_uint :: "float64 \<Rightarrow> error + uint" where
  "float64_to_uint f =
     (case f of
        Finite x \<Rightarrow>
          (if - 1 < x \<and> x < 2 ^ 64
           then Inr (word_of_int (if 0 \<le> x then \<lfloor>x\<rfloor> else 0))
           else Inl ImplementationDependent)
      | _ \<Rightarrow> Inl ImplementationDependent)"

section \<open>Codecs\<close>

text \<open>
  The interface \<^verbatim>\<open>binCodec\<close> has two implementations; a value of the interface is one
  of them with its configuration.
\<close>

datatype binCodec = DefaultCodec uint | ExpCodec uint

definition newDefaultCodec :: "uint \<Rightarrow> error + binCodec" where
  "newDefaultCodec binWidth =
     (if binWidth = 0 then Inl (ErrInvalidBinWidth binWidth) else Inr (DefaultCodec binWidth))"

definition newExpCodec :: "uint \<Rightarrow> error + binCodec" where
  "newExpCodec logBase =
     (if logBase < 2 then Inl (ErrInvalidLogBase logBase) else Inr (ExpCodec logBase))"

text \<open>Integer division by zero panics in Go.\<close>

definition defaultCodec_encode :: "uint \<Rightarrow> uint \<Rightarrow> error + uint" where
  "defaultCodec_encode binWidth value =
     (if binWidth = 0 then Inl PanicDivideByZero else Inr (value div binWidth))"

definition defaultCodec_decode :: "uint \<Rightarrow> uint \<Rightarrow> error + uint" where
  "defaultCodec_decode binWidth binValue = Inr (binValue * binWidth)"

definition expCodec_encode :: "uint \<Rightarrow> uint \<Rightarrow> error + uint" where
  "expCodec_encode logBase value =
     (let valueF = float64_of_uint value;
          logBaseF = float64_of_uint logBase;
          resultF = float64_div (math_Log1p valueF) (math_Log logBaseF)
      in float64_to_uint resultF)"

definition expCodec_decode :: "uint \<Rightarrow> uint \<Rightarrow> error + uint" where
  "expCodec_decode logBase binValue =
     (let result = math_Pow_uint logBase binValue in float64_to_uint result)"

fun encode :: "binCodec \<Rightarrow> uint \<Rightarrow> error + uint" where
  "encode (DefaultCodec w) value = defaultCodec_encode w value"
| "encode (ExpCodec b) value = expCodec_encode b value"

fun decode :: "binCodec \<Rightarrow> uint \<Rightarrow> error + uint" where
  "decode (DefaultCodec w) binValue = defaultCodec_decode w binValue"
| "decode (ExpCodec b) binValue = expCodec_decode b binValue"

section \<open>Bins and the bin list\<close>

text \<open>
  The bins live in a store of cells; a \<^verbatim>\<open>*hBin\<close> is the address of a cell or nil
  (\<open>None\<close>). Allocation appends a cell, so the address of a new cell is the size of
  the store before it.
\<close>

type_synonym addr = nat

record hBin =
  b_value :: uint
  b_freq :: uint
  b_next :: "addr option"

definition hBin_update :: "hBin \<Rightarrow> uint \<Rightarrow> hBin" where
  "hBin_update b freq = b\<lparr>b_freq := b_freq b + freq\<rparr>"

record hBinList =
  l_store :: "hBin list"
  l_length :: uint
  l_totalFreq :: uint
  l_head :: "addr option"
  l_curr :: "addr option"

definition newBinList :: hBinList where
  "newBinList = \<lparr>l_store = [], l_length = 0, l_totalFreq = 0, l_head = None, l_curr = None\<rparr>"

text \<open>Reading a field through a \<^verbatim>\<open>*hBin\<close>: nil panics.\<close>

definition deref :: "hBinList \<Rightarrow> addr option \<Rightarrow> error + hBin" where
  "deref l p =
     (case p of
        None \<Rightarrow> Inl PanicNilDereference
      | Some a \<Rightarrow> if a < length (l_store l) then Inr (l_store l ! a) else Inl InvalidAddress)"

text \<open>
  A \<^verbatim>\<open>**hBin\<close> is the address of a pointer variable: \<^verbatim>\<open>&l.head\<close>, \<^verbatim>\<open>&l.curr\<close> or the
  \<^verbatim>\<open>&bin.next\<close> of a cell.
\<close>

datatype ref = HeadOf | CurrOf | NextOf addr

fun load :: "hBinList \<Rightarrow> ref \<Rightarrow> error + addr option" where
  "load l HeadOf = Inr (l_head l)"
| "load l CurrOf = Inr (l_curr l)"
| "load l (NextOf a) =
     (if a < length (l_store l) then Inr (b_next (l_store l ! a)) else Inl InvalidAddress)"

fun assign :: "hBinList \<Rightarrow> ref \<Rightarrow> addr option \<Rightarrow> error + hBinList" where
  "assign l HeadOf p = Inr (l\<lparr>l_head := p\<rparr>)"
| "assign l CurrOf p = Inr (l\<lparr>l_curr := p\<rparr>)"
| "assign l (NextOf a) p =
     (if a < length (l_store l)
      then Inr (l\<lparr>l_store := (l_store l)[a := (l_store l ! a)\<lparr>b_next := p\<rparr>]\<rparr>)
      else Inl InvalidAddress)"

text \<open>
  The three statements that end both exits of \<^verbatim>\<open>binFor\<close>:
  \<^verbatim>\<open>result := &hBin{value, 0, next}; *head = result; l.length++; return result\<close>.
\<close>

definition binFor_insert :: "hBinList \<Rightarrow> ref \<Rightarrow> uint \<Rightarrow> addr option \<Rightarrow> error + hBinList \<times> addr" where
  "binFor_insert l head value nxt =
     (let result = length (l_store l);
          l1 = l\<lparr>l_store := l_store l @ [\<lparr>b_value = value, b_freq = 0, b_next = nxt\<rparr>]\<rparr>
      in case assign l1 head (Some result) of
           Inl e \<Rightarrow> Inl e
         | Inr l2 \<Rightarrow> Inr (l2\<lparr>l_length := l_length l2 + 1\<rparr>, result))"

text \<open>
  The loop of \<^verbatim>\<open>binFor\<close> follows the next pointers and does not end on a cyclic chain:
  \<open>None\<close> is a run that never returns.
\<close>

partial_function (option) binFor :: "hBinList \<Rightarrow> ref \<Rightarrow> uint \<Rightarrow> (error + hBinList \<times> addr) option" where
  "binFor l head value =
     (case load l head of
        Inl e \<Rightarrow> Some (Inl e)
      | Inr None \<Rightarrow> Some (binFor_insert l head value None)
      | Inr (Some c) \<Rightarrow>
          (case deref l (Some c) of
             Inl e \<Rightarrow> Some (Inl e)
           | Inr b \<Rightarrow>
               if b_value b = value then Some (Inr (l, c))
               else if b_value b < value then binFor l (NextOf c) value
               else Some (binFor_insert l head value (Some c))))"

text \<open>
  The body shared by the three branches of \<^verbatim>\<open>update\<close>, which differ in the pointer
  variable the search starts from: \<^verbatim>\<open>bin := l.binFor(head, value); l.curr = bin;
  bin.update(freq)\<close>, followed by the final \<^verbatim>\<open>l.totalFreq += freq\<close>.
\<close>

definition update_from :: "hBinList \<Rightarrow> ref \<Rightarrow> uint \<Rightarrow> uint \<Rightarrow> (error + hBinList) option" where
  "update_from l head value freq =
     (case binFor l head value of
        None \<Rightarrow> None
      | Some (Inl e) \<Rightarrow> Some (Inl e)
      | Some (Inr (l1, bin)) \<Rightarrow>
          (let l2 = l1\<lparr>l_curr := Some bin\<rparr> in
           case deref l2 (Some bin) of
             Inl e \<Rightarrow> Some (Inl e)
           | Inr b \<Rightarrow>
               (let l3 = l2\<lparr>l_store := (l_store l2)[bin := hBin_update b freq]\<rparr>
                in Some (Inr (l3\<lparr>l_totalFreq := l_totalFreq l3 + freq\<rparr>)))))"

definition update :: "hBinList \<Rightarrow> uint \<Rightarrow> uint \<Rightarrow> (error + hBinList) option" where
  "update l value freq =
     (if l_head l = None \<and> l_curr l \<noteq> None
      then Some (Inl (PanicMessage ''current node of an empty list is non nil''))
      else if l_curr l = None then update_from l HeadOf value freq
      else case deref l (l_curr l) of
             Inl e \<Rightarrow> Some (Inl e)
           | Inr c \<Rightarrow>
               if value < b_value c then update_from l HeadOf value freq
               else if value \<ge> b_value c then update_from l CurrOf value freq
               else Some (Inl (PanicMessage ''sentinel error: this else should not be reached'')))"

definition first :: "hBinList \<Rightarrow> addr option" where
  "first l = l_head l"

text \<open>The loop of \<^verbatim>\<open>last\<close>: \<^verbatim>\<open>for bin != nil && bin.next != nil { bin = bin.next }\<close>.\<close>

partial_function (option) last_loop :: "hBinList \<Rightarrow> addr option \<Rightarrow> (error + addr option) option" where
  "last_loop l bin =
     (case bin of
        None \<Rightarrow> Some (Inr bin)
      | Some a \<Rightarrow>
          (case deref l bin of
             Inl e \<Rightarrow> Some (Inl e)
           | Inr b \<Rightarrow> if b_next b \<noteq> None then last_loop l (b_next b) else Some (Inr bin)))"

definition last_bin :: "hBinList \<Rightarrow> (error + addr option) option" where
  "last_bin l = last_loop l (l_head l)"

section \<open>The iterator\<close>

text \<open>
  The iterator holds a pointer to the list it walks; the list is passed to each
  method, which reads it as it is at the call.
\<close>

record BinIter =
  i_curr :: "addr option"
  i_cumFreq :: uint
  i_codec :: binCodec

definition newIter :: "hBinList \<Rightarrow> binCodec \<Rightarrow> BinIter" where
  "newIter binList codec = \<lparr>i_curr = l_head binList, i_cumFreq = 0, i_codec = codec\<rparr>"

definition iter :: "hBinList \<Rightarrow> binCodec \<Rightarrow> BinIter" where
  "iter l codec = newIter l codec"

definition bin :: "BinIter \<Rightarrow> addr option" where
  "bin i = i_curr i"

definition Done :: "BinIter \<Rightarrow> bool" where
  "Done i = (i_curr i = None)"

definition Next :: "hBinList \<Rightarrow> BinIter \<Rightarrow> error + BinIter" where
  "Next l i =
     (case deref l (i_curr i) of
        Inl e \<Rightarrow> Inl e
      | Inr b \<Rightarrow> Inr (i\<lparr>i_cumFreq := i_cumFreq i + b_freq b, i_curr := b_next b\<rparr>))"

definition Freq :: "hBinList \<Rightarrow> BinIter \<Rightarrow> error + uint" where
  "Freq l i = (case deref l (i_curr i) of Inl e \<Rightarrow> Inl e | Inr b \<Rightarrow> Inr (b_freq b))"

definition PRank :: "hBinList \<Rightarrow> BinIter \<Rightarrow> error + float64" where
  "PRank l i =
     Inr (float64_mul
            (float64_div (float64_of_uint (i_cumFreq i)) (float64_of_uint (l_totalFreq l)))
            (Finite 100))"

definition Percentile_iter :: "hBinList \<Rightarrow> BinIter \<Rightarrow> error + uint" where
  "Percentile_iter l i =
     (case deref l (i_curr i) of Inl e \<Rightarrow> Inl e | Inr b \<Rightarrow> decode (i_codec i) (b_value b))"

section \<open>The histogram\<close>

record Hstg =
  h_codec :: binCodec
  h_binList :: hBinList

definition New :: "uint \<Rightarrow> error + Hstg" where
  "New binWidth =
     (case newDefaultCodec binWidth of
        Inl err \<Rightarrow> Inl err
      | Inr codec \<Rightarrow> Inr \<lparr>h_codec = codec, h_binList = newBinList\<rparr>)"

definition NewExp :: "uint \<Rightarrow> error + Hstg" where
  "NewExp logBase =
     (case newExpCodec logBase of
        Inl err \<Rightarrow> Inl err
      | Inr codec \<Rightarrow> Inr \<lparr>h_codec = codec, h_binList = newBinList\<rparr>)"

definition BinCount :: "Hstg \<Rightarrow> uint" where
  "BinCount h = l_length (h_binList h)"

definition TotalFreq :: "Hstg \<Rightarrow> uint" where
  "TotalFreq h = l_totalFreq (h_binList h)"

definition Update :: "Hstg \<Rightarrow> uint \<Rightarrow> (error + Hstg) option" where
  "Update h value =
     (case encode (h_codec h) value of
        Inl e \<Rightarrow> Some (Inl e)
      | Inr binValue \<Rightarrow>
          (case update (h_binList h) binValue 1 of
             None \<Rightarrow> None
           | Some (Inl e) \<Rightarrow> Some (Inl e)
           | Some (Inr l) \<Rightarrow> Some (Inr (h\<lparr>h_binList := l\<rparr>))))"

text \<open>
  The loop of \<^verbatim>\<open>Percentile\<close>:
  \<^verbatim>\<open>for !i.Done() { if i.PRank() > prank { break }; bin = i.bin(); i.Next() }\<close>.
\<close>

partial_function (option) Percentile_loop ::
  "hBinList \<Rightarrow> float64 \<Rightarrow> BinIter \<Rightarrow> addr option \<Rightarrow> (error + addr option) option" where
  "Percentile_loop l prank i b =
     (if Done i then Some (Inr b)
      else case PRank l i of
             Inl e \<Rightarrow> Some (Inl e)
           | Inr r \<Rightarrow>
               if float64_gt r prank then Some (Inr b)
               else (case Next l i of
                       Inl e \<Rightarrow> Some (Inl e)
                     | Inr i' \<Rightarrow> Percentile_loop l prank i' (bin i)))"

text \<open>The last two statements: \<^verbatim>\<open>result := h.codec.decode(bin.value); return result, nil\<close>.\<close>

definition Percentile_result :: "Hstg \<Rightarrow> addr option \<Rightarrow> error + uint" where
  "Percentile_result h b =
     (case deref (h_binList h) b of
        Inl e \<Rightarrow> Inl e
      | Inr c \<Rightarrow> decode (h_codec h) (b_value c))"

definition Percentile :: "Hstg \<Rightarrow> float64 \<Rightarrow> (error + uint) option" where
  "Percentile h prank =
     (if float64_lt prank (Finite 0) \<or> float64_gt prank (Finite 100)
      then Some (Inl (ErrInvalidPrank prank))
      else if l_length (h_binList h) = 0 then Some (decode (h_codec h) 0)
      else if float64_eq prank (Finite 0)
        then Some (Percentile_result h (first (h_binList h)))
      else if float64_eq prank (Finite 100)
        then (case last_bin (h_binList h) of
                None \<Rightarrow> None
              | Some (Inl e) \<Rightarrow> Some (Inl e)
              | Some (Inr b) \<Rightarrow> Some (Percentile_result h b))
      else (let i = iter (h_binList h) (h_codec h) in
            case Percentile_loop (h_binList h) prank i (bin i) of
              None \<Rightarrow> None
            | Some (Inl e) \<Rightarrow> Some (Inl e)
            | Some (Inr b) \<Rightarrow> Some (Percentile_result h b)))"


text \<open>Running a sequence of \<^verbatim>\<open>Update\<close> calls; a panic stops the run.\<close>

fun Updates :: "Hstg \<Rightarrow> uint list \<Rightarrow> (error + Hstg) option" where
  "Updates h [] = Some (Inr h)"
| "Updates h (value # values) =
     (case Update h value of
        None \<Rightarrow> None
      | Some (Inl e) \<Rightarrow> Some (Inl e)
      | Some (Inr h') \<Rightarrow> Updates h' values)"

text \<open>Running a sequence of \<^verbatim>\<open>update\<close> calls on the bin list.\<close>

fun updates :: "hBinList \<Rightarrow> (uint \<times> uint) list \<Rightarrow> (error + hBinList) option" where
  "updates l [] = Some (Inr l)"
| "updates l ((value, freq) # us) =
     (case update l value freq of
        None \<Rightarrow> None
      | Some (Inl e) \<Rightarrow> Some (Inl e)
      | Some (Inr l') \<Rightarrow> updates l' us)"

section \<open>The chain of bins as a list\<close>

text \<open>
  \<open>chain st p as\<close>: following the next pointers from \<open>p\<close> in the store \<open>st\<close> visits
  exactly the allocated cells \<open>as\<close>, in this order, and ends at nil.
\<close>

fun chain :: "hBin list \<Rightarrow> addr option \<Rightarrow> addr list \<Rightarrow> bool" where
  "chain st p [] = (p = None)"
| "chain st p (a # as) = (p = Some a \<and> a < length st \<and> chain st (b_next (st ! a)) as)"

definition ascending :: "hBin list \<Rightarrow> addr list \<Rightarrow> bool" where
  "ascending st as = sorted_wrt (<) (map (\<lambda>a. b_value (st ! a)) as)"

definition keys_of :: "hBin list \<Rightarrow> addr list \<Rightarrow> uint set" where
  "keys_of st as = (\<lambda>a. b_value (st ! a)) ` set as"

text \<open>
  The chain computed from the head: at most as many steps as the store has cells, so a
  cyclic chain and a pointer outside the store both give \<open>None\<close>.
\<close>

fun walk :: "nat \<Rightarrow> hBin list \<Rightarrow> addr option \<Rightarrow> addr list option" where
  "walk n st None = Some []"
| "walk 0 st (Some a) = None"
| "walk (Suc n) st (Some a) =
     (if a < length st then map_option ((#) a) (walk n st (b_next (st ! a))) else None)"

definition bins_of :: "hBinList \<Rightarrow> addr list option" where
  "bins_of l = walk (length (l_store l)) (l_store l) (l_head l)"

text \<open>
  The invariant of the bin list: the chain from the head ends, its keys are strictly
  ascending, and the cursor is nil or one of its cells.
\<close>

definition hBinList_inv :: "hBinList \<Rightarrow> bool" where
  "hBinList_inv l =
     (case bins_of l of
        None \<Rightarrow> False
      | Some as \<Rightarrow>
          ascending (l_store l) as \<and>
          (case l_curr l of None \<Rightarrow> True | Some a \<Rightarrow> a \<in> set as))"

definition list_inv :: "hBinList \<Rightarrow> addr list \<Rightarrow> bool" where
  "list_inv l as \<longleftrightarrow>
     chain (l_store l) (l_head l) as \<and> ascending (l_store l) as \<and>
     (l_curr l = None \<or> (\<exists>a\<in>set as. l_curr l = Some a))"

text \<open>
  What a search from the pointer variable \<open>r\<close> does to the chain \<open>rest\<close> that starts
  there: the cell \<open>b\<close> it returns carries the key, the chain gains at most this cell
  and stays ascending, the counter follows, and nothing else changes.
\<close>

definition binFor_post ::
  "hBinList \<Rightarrow> ref \<Rightarrow> uint \<Rightarrow> addr list \<Rightarrow> hBinList \<Rightarrow> addr \<Rightarrow> addr list \<Rightarrow> bool" where
  "binFor_post l r v rest l' b rest' \<longleftrightarrow>
     (\<exists>p'. load l' r = Inr p' \<and> chain (l_store l') p' rest') \<and>
     ascending (l_store l') rest' \<and>
     set rest' = insert b (set rest) \<and>
     b_value (l_store l' ! b) = v \<and>
     (v \<in> keys_of (l_store l) rest \<longrightarrow> length rest' = length rest \<and> l_length l' = l_length l) \<and>
     (v \<notin> keys_of (l_store l) rest \<longrightarrow>
        length rest' = Suc (length rest) \<and> l_length l' = l_length l + 1) \<and>
     length (l_store l) \<le> length (l_store l') \<and>
     (\<forall>x<length (l_store l). b_value (l_store l' ! x) = b_value (l_store l ! x)) \<and>
     (\<forall>x<length (l_store l). x \<notin> set rest \<longrightarrow> r \<noteq> NextOf x \<longrightarrow> l_store l' ! x = l_store l ! x) \<and>
     (r \<noteq> HeadOf \<longrightarrow> l_head l' = l_head l) \<and>
     (r \<noteq> CurrOf \<longrightarrow> l_curr l' = l_curr l) \<and>
     l_totalFreq l' = l_totalFreq l \<and>
     (rest \<noteq> [] \<and> b_value (l_store l ! hd rest) \<le> v \<longrightarrow>
        load l' r = load l r \<and> rest' \<noteq> [] \<and> hd rest' = hd rest)"

definition update_post ::
  "hBinList \<Rightarrow> uint \<Rightarrow> uint \<Rightarrow> addr list \<Rightarrow> hBinList \<Rightarrow> addr list \<Rightarrow> bool" where
  "update_post l v f as l' as' \<longleftrightarrow>
     list_inv l' as' \<and>
     keys_of (l_store l') as' = insert v (keys_of (l_store l) as) \<and>
     (v \<in> keys_of (l_store l) as \<longrightarrow> length as' = length as \<and> l_length l' = l_length l) \<and>
     (v \<notin> keys_of (l_store l) as \<longrightarrow>
        length as' = Suc (length as) \<and> l_length l' = l_length l + 1) \<and>
     l_totalFreq l' = l_totalFreq l + f"

text \<open>
  The bin counter agrees with the chain: it holds the number of cells, as a \<^verbatim>\<open>uint\<close>.
\<close>

definition counted :: "hBinList \<Rightarrow> bool" where
  "counted l = (case bins_of l of None \<Rightarrow> False | Some as \<Rightarrow> l_length l = of_nat (length as))"

section \<open>Concrete lists\<close>

text \<open>\<open>n\<close> calls of \<^verbatim>\<open>Next\<close> in a row, and what a caller reads at the position reached.\<close>

fun Nexts :: "nat \<Rightarrow> hBinList \<Rightarrow> BinIter \<Rightarrow> error + BinIter" where
  "Nexts 0 l i = Inr i"
| "Nexts (Suc n) l i = (case Next l i of Inl e \<Rightarrow> Inl e | Inr i' \<Rightarrow> Nexts n l i')"

definition observe ::
  "hBinList \<Rightarrow> binCodec \<Rightarrow> nat \<Rightarrow> error + bool \<times> uint \<times> (error + uint) \<times> (error + float64)" where
  "observe l codec n =
     (case Nexts n l (iter l codec) of
        Inl e \<Rightarrow> Inl e
      | Inr i \<Rightarrow> Inr (Done i, i_cumFreq i, Percentile_iter l i, PRank l i))"

text \<open>The list of \<^verbatim>\<open>TestItIteratesOverBins\<close>, after \<^verbatim>\<open>update(i, i*i)\<close> for \<open>i\<close> from 1 to 5.\<close>

definition squares_list :: hBinList where
  "squares_list =
     \<lparr>l_store =
        [\<lparr>b_value = 1, b_freq = 1, b_next = Some 1\<rparr>,
         \<lparr>b_value = 2, b_freq = 4, b_next = Some 2\<rparr>,
         \<lparr>b_value = 3, b_freq = 9, b_next = Some 3\<rparr>,
         \<lparr>b_value = 4, b_freq = 16, b_next = Some 4\<rparr>,
         \<lparr>b_value = 5, b_freq = 25, b_next = None\<rparr>],
      l_length = 5, l_totalFreq = 55, l_head = Some 0, l_curr = Some 4\<rparr>"

text \<open>The histogram of width 1 after \<^verbatim>\<open>Update\<close> with 0, 1, 2, 3, 4, once each.\<close>

definition linear_hstg :: Hstg where
  "linear_hstg =
     \<lparr>h_codec = DefaultCodec 1,
      h_binList =
        \<lparr>l_store =
           [\<lparr>b_value = 0, b_freq = 1, b_next = Some 1\<rparr>,
            \<lparr>b_value = 1, b_freq = 1, b_next = Some 2\<rparr>,
            \<lparr>b_value = 2, b_freq = 1, b_next = Some 3\<rparr>,
            \<lparr>b_value = 3, b_freq = 1, b_next = Some 4\<rparr>,
            \<lparr>b_value = 4, b_freq = 1, b_next = None\<rparr>],
         l_length = 5, l_totalFreq = 5, l_head = Some 0, l_curr = Some 4\<rparr>\<rparr>"

section \<open>Chains\<close>

lemma chain_unique: "chain st p as \<Longrightarrow> chain st p bs \<Longrightarrow> as = bs"
proof (induction as arbitrary: p bs)
  case Nil
  then show ?case by (cases bs) auto
next
  case (Cons a as)
  then show ?case by (cases bs) auto
qed

lemma chain_bound: "chain st p as \<Longrightarrow> set as \<subseteq> {..<length st}"
  by (induction as arbitrary: p) auto

lemma walk_chain: "walk n st p = Some as \<Longrightarrow> chain st p as"
proof (induction n st p arbitrary: as rule: walk.induct)
  case (1 n st)
  then show ?case by simp
next
  case (2 st a)
  then show ?case by simp
next
  case (3 n st a)
  then show ?case by (auto split: if_splits)
qed

lemma chain_walk: "chain st p as \<Longrightarrow> length as \<le> n \<Longrightarrow> walk n st p = Some as"
proof (induction as arbitrary: p n)
  case Nil
  then show ?case by simp
next
  case (Cons a as)
  then obtain m where "n = Suc m" by (cases n) auto
  with Cons show ?case by auto
qed

lemma ascending_distinct: "ascending st as \<Longrightarrow> distinct as"
  unfolding ascending_def
  by (induction as) auto

lemma chain_length_le:
  assumes "chain st p as" and "distinct as"
  shows "length as \<le> length st"
proof -
  have "card (set as) \<le> card {..<length st}"
    using chain_bound [OF assms(1)] by (intro card_mono) auto
  with assms(2) show ?thesis by (simp add: distinct_card)
qed

lemma bins_of_iff:
  "ascending (l_store l) as \<Longrightarrow> bins_of l = Some as \<longleftrightarrow> chain (l_store l) (l_head l) as"
  unfolding bins_of_def
  using walk_chain chain_walk chain_length_le ascending_distinct by blast

lemma chain_frame:
  "chain st p as \<Longrightarrow> length st \<le> length st' \<Longrightarrow>
   (\<forall>x\<in>set as. b_next (st' ! x) = b_next (st ! x)) \<Longrightarrow> chain st' p as"
  by (induction as arbitrary: p) auto

lemma ascending_frame:
  "(\<forall>x\<in>set as. b_value (st' ! x) = b_value (st ! x)) \<Longrightarrow> ascending st' as = ascending st as"
  unfolding ascending_def
  by (simp cong: map_cong)

lemma chain_splice:
  "chain st p (pre @ a # rest) \<Longrightarrow> length st \<le> length st' \<Longrightarrow>
   (\<forall>x\<in>set pre. b_next (st' ! x) = b_next (st ! x)) \<Longrightarrow>
   chain st' (b_next (st' ! a)) rest' \<Longrightarrow> chain st' p (pre @ a # rest')"
  by (induction pre arbitrary: p) auto

lemma ascending_Cons:
  "ascending st (a # as) \<longleftrightarrow>
     (\<forall>x\<in>set as. b_value (st ! a) < b_value (st ! x)) \<and> ascending st as"
  by (simp add: ascending_def)

lemma binFor_insert_post:
  assumes ld: "load l r = Inr p"
    and ch: "chain (l_store l) p rest"
    and asc: "ascending (l_store l) rest"
    and nin: "\<forall>a. r = NextOf a \<longrightarrow> a \<notin> set rest"
    and lt: "\<forall>x\<in>set rest. v < b_value (l_store l ! x)"
  shows "\<exists>l'. binFor_insert l r v p = Inr (l', length (l_store l)) \<and>
               binFor_post l r v rest l' (length (l_store l)) (length (l_store l) # rest)"
proof -
  let ?st = "l_store l"
  let ?n = "length ?st"
  let ?new = "\<lparr>b_value = v, b_freq = 0, b_next = p\<rparr>"
  have bound: "\<forall>x\<in>set rest. x < ?n"
    using chain_bound [OF ch] by auto
  have notkey: "v \<notin> keys_of ?st rest"
    using lt by (auto simp: keys_of_def)
  have nohd: "rest \<noteq> [] \<longrightarrow> \<not> b_value (?st ! hd rest) \<le> v"
    using lt by (cases rest) auto
  show ?thesis
  proof (cases r)
    case HeadOf
    let ?st' = "?st @ [?new]"
    have c: "chain ?st' p rest"
      using ch bound by (intro chain_frame [OF ch]) (auto simp: nth_append)
    have a: "ascending ?st' (?n # rest)"
      using asc lt bound by (auto simp: ascending_def nth_append cong: map_cong)
    show ?thesis
      using HeadOf c a notkey nohd
      by (auto simp add: binFor_insert_def binFor_post_def nth_append Let_def)
  next
    case CurrOf
    let ?st' = "?st @ [?new]"
    have c: "chain ?st' p rest"
      using ch bound by (intro chain_frame [OF ch]) (auto simp: nth_append)
    have a: "ascending ?st' (?n # rest)"
      using asc lt bound by (auto simp: ascending_def nth_append cong: map_cong)
    show ?thesis
      using CurrOf c a notkey nohd
      by (auto simp add: binFor_insert_def binFor_post_def nth_append Let_def)
  next
    case (NextOf a)
    with ld have an: "a < ?n"
      by (auto split: if_splits)
    from NextOf nin have ar: "a \<notin> set rest" by simp
    let ?st' = "(?st @ [?new])[a := ((?st @ [?new]) ! a)\<lparr>b_next := Some ?n\<rparr>]"
    have c: "chain ?st' p rest"
      using ch bound ar an by (intro chain_frame [OF ch]) (auto simp: nth_append nth_list_update)
    have k: "\<forall>x\<in>set rest. b_value (?st' ! x) = b_value (?st ! x)"
      using bound ar an by (auto simp: nth_append nth_list_update)
    have a: "ascending ?st' (?n # rest)"
      using ascending_frame [OF k] asc lt k an
      by (simp add: ascending_Cons nth_append nth_list_update)
    show ?thesis
      using NextOf c a notkey an nohd
      by (auto simp add: binFor_insert_def binFor_post_def nth_append nth_list_update Let_def)
  qed
qed

lemma load_NextOf_iff:
  "load l (NextOf a) = Inr p \<longleftrightarrow> a < length (l_store l) \<and> p = b_next (l_store l ! a)"
  by auto

lemma binFor_post_step:
  assumes ld: "load l r = Inr (Some c)"
    and c: "c < length (l_store l)"
    and ch: "chain (l_store l) (b_next (l_store l ! c)) cs"
    and asc: "ascending (l_store l) (c # cs)"
    and nin: "\<forall>a. r = NextOf a \<longrightarrow> a \<notin> set (c # cs)"
    and lt: "b_value (l_store l ! c) < v"
    and post: "binFor_post l (NextOf c) v cs l' b cs'"
  shows "binFor_post l r v (c # cs) l' b (c # cs')"
proof -
  let ?st = "l_store l" and ?st' = "l_store l'"
  from post obtain p' where
    p1: "load l' (NextOf c) = Inr p'" "chain ?st' p' cs'"
    and p2: "ascending ?st' cs'"
    and p3: "set cs' = insert b (set cs)"
    and p4: "b_value (?st' ! b) = v"
    and p5: "v \<in> keys_of ?st cs \<longrightarrow> length cs' = length cs \<and> l_length l' = l_length l"
    and p6: "v \<notin> keys_of ?st cs \<longrightarrow> length cs' = Suc (length cs) \<and> l_length l' = l_length l + 1"
    and p7: "length ?st \<le> length ?st'"
    and p8: "\<forall>x<length ?st. b_value (?st' ! x) = b_value (?st ! x)"
    and p9: "\<forall>x<length ?st. x \<notin> set cs \<longrightarrow> NextOf c \<noteq> NextOf x \<longrightarrow> ?st' ! x = ?st ! x"
    and p10: "l_head l' = l_head l" "l_curr l' = l_curr l" "l_totalFreq l' = l_totalFreq l"
    unfolding binFor_post_def by auto
  have p10': "r \<noteq> HeadOf \<longrightarrow> l_head l' = l_head l" "r \<noteq> CurrOf \<longrightarrow> l_curr l' = l_curr l"
    using p10 by simp_all
  from p1 have c': "c < length ?st'" and p': "p' = b_next (?st' ! c)"
    by (auto split: if_splits)
  have bound: "\<forall>x\<in>set cs. x < length ?st"
    using chain_bound [OF ch] by auto
  have ld': "load l' r = Inr (Some c)"
  proof (cases r)
    case HeadOf
    with ld p10 show ?thesis by simp
  next
    case CurrOf
    with ld p10 show ?thesis by simp
  next
    case (NextOf a)
    with ld have a: "a < length ?st" "b_next (?st ! a) = Some c"
      by (auto split: if_splits)
    from NextOf nin have "a \<noteq> c" "a \<notin> set cs" by auto
    with p9 a have "?st' ! a = ?st ! a" by simp
    with a p7 NextOf show ?thesis by simp
  qed
  have g1: "\<exists>q. load l' r = Inr q \<and> chain ?st' q (c # cs')"
    using ld' c' p1 p' by simp
  from asc have ckeys: "\<forall>x\<in>set cs. b_value (?st ! c) < b_value (?st ! x)"
    by (simp add: ascending_Cons)
  have g2: "ascending ?st' (c # cs')"
    using p2 p3 p4 p8 c lt ckeys bound by (auto simp: ascending_Cons)
  have g3: "set (c # cs') = insert b (set (c # cs))"
    using p3 by auto
  have keq: "v \<in> keys_of ?st (c # cs) \<longleftrightarrow> v \<in> keys_of ?st cs"
    using lt by (auto simp: keys_of_def)
  have g9: "\<forall>x<length ?st. x \<notin> set (c # cs) \<longrightarrow> r \<noteq> NextOf x \<longrightarrow> ?st' ! x = ?st ! x"
    using p9 by auto
  have g11: "load l' r = load l r"
    using ld ld' by simp
  show ?thesis
    unfolding binFor_post_def
    using g1 g2 g3 p4 p5 p6 keq p7 p8 g9 p10' p10(3) g11 by simp
qed

lemma binFor_post_found:
  assumes "load l r = Inr (Some c)"
    and "chain (l_store l) (Some c) (c # cs)"
    and "ascending (l_store l) (c # cs)"
    and "b_value (l_store l ! c) = v"
  shows "binFor_post l r v (c # cs) l c (c # cs)"
  unfolding binFor_post_def using assms
  by (auto simp: keys_of_def)

lemma binFor_correct:
  assumes "load l r = Inr p"
    and "chain (l_store l) p rest"
    and "ascending (l_store l) rest"
    and "\<forall>a. r = NextOf a \<longrightarrow> a \<notin> set rest"
  shows "\<exists>l' b rest'. binFor l r v = Some (Inr (l', b)) \<and> binFor_post l r v rest l' b rest'"
  using assms
proof (induction rest arbitrary: r p)
  case Nil
  then have p: "p = None" by simp
  have "binFor l r v = Some (binFor_insert l r v p)"
    using Nil.prems(1) p by (subst binFor.simps) simp
  moreover from binFor_insert_post [OF Nil.prems(1,2,3,4), of v]
  obtain l' where "binFor_insert l r v p = Inr (l', length (l_store l))"
    "binFor_post l r v [] l' (length (l_store l)) [length (l_store l)]"
    by auto
  ultimately show ?case by auto
next
  case (Cons c cs)
  let ?st = "l_store l"
  from Cons.prems(2) have p: "p = Some c" and c: "c < length ?st"
    and ch: "chain ?st (b_next (?st ! c)) cs"
    by auto
  have dr: "deref l (Some c) = Inr (?st ! c)"
    using c by (simp add: deref_def)
  from Cons.prems(3) have asc: "ascending ?st cs"
    and ckeys: "\<forall>x\<in>set cs. b_value (?st ! c) < b_value (?st ! x)"
    by (simp_all add: ascending_Cons)
  consider (eq) "b_value (?st ! c) = v" | (lt) "b_value (?st ! c) < v" | (gt) "v < b_value (?st ! c)"
    by fastforce
  then show ?case
  proof cases
    case eq
    have "binFor l r v = Some (Inr (l, c))"
      using Cons.prems(1) p dr eq by (subst binFor.simps) simp
    moreover have "binFor_post l r v (c # cs) l c (c # cs)"
      using Cons.prems p eq by (intro binFor_post_found) auto
    ultimately show ?thesis by blast
  next
    case lt
    have step: "binFor l r v = binFor l (NextOf c) v"
      using Cons.prems(1) p dr lt by (subst binFor.simps) auto
    have "c \<notin> set cs"
      using ascending_distinct [OF Cons.prems(3)] by simp
    with Cons.IH [of "NextOf c" "b_next (?st ! c)"] c ch asc
    obtain l' b cs' where r: "binFor l (NextOf c) v = Some (Inr (l', b))"
      and post: "binFor_post l (NextOf c) v cs l' b cs'"
      by auto
    have "binFor_post l r v (c # cs) l' b (c # cs')"
      using Cons.prems(1,3,4) p c ch lt post by (intro binFor_post_step) auto
    with step r show ?thesis by auto
  next
    case gt
    have "binFor l r v = Some (binFor_insert l r v p)"
      using Cons.prems(1) p dr gt by (subst binFor.simps) auto
    moreover have "\<forall>x\<in>set (c # cs). v < b_value (?st ! x)"
      using gt ckeys by auto
    from binFor_insert_post [OF Cons.prems(1,2,3,4) this]
    obtain l' where "binFor_insert l r v p = Inr (l', length ?st)"
      "binFor_post l r v (c # cs) l' (length ?st) (length ?st # c # cs)"
      by auto
    ultimately show ?thesis by auto
  qed
qed

lemma ascending_append:
  "ascending st (xs @ ys) \<longleftrightarrow>
     ascending st xs \<and> ascending st ys \<and>
     (\<forall>x\<in>set xs. \<forall>y\<in>set ys. b_value (st ! x) < b_value (st ! y))"
  by (auto simp: ascending_def sorted_wrt_append)

lemma chain_suffix:
  "chain st p (pre @ rest) \<Longrightarrow> \<exists>q. chain st q rest"
  by (induction pre arbitrary: p) auto

lemma update_finish:
  assumes bf: "binFor l r v = Some (Inr (l1, b))"
    and ch: "chain (l_store l1) (l_head l1) as'"
    and asc: "ascending (l_store l1) as'"
    and b: "b \<in> set as'"
  shows "\<exists>l'. update_from l r v f = Some (Inr l') \<and> list_inv l' as' \<and>
               (\<forall>x. b_value (l_store l' ! x) = b_value (l_store l1 ! x)) \<and>
               l_length l' = l_length l1 \<and> l_totalFreq l' = l_totalFreq l1 + f"
proof -
  let ?st = "l_store l1"
  from chain_bound [OF ch] b have bl: "b < length ?st" by auto
  let ?st' = "?st[b := hBin_update (?st ! b) f]"
  let ?l' = "l1\<lparr>l_curr := Some b, l_store := ?st', l_totalFreq := l_totalFreq l1 + f\<rparr>"
  have nx: "\<forall>x. b_next (?st' ! x) = b_next (?st ! x)"
    using bl by (auto simp: nth_list_update hBin_update_def)
  have ky: "\<forall>x. b_value (?st' ! x) = b_value (?st ! x)"
    using bl by (auto simp: nth_list_update hBin_update_def)
  have "update_from l r v f = Some (Inr ?l')"
    using bf bl by (simp add: update_from_def deref_def Let_def)
  moreover have "chain ?st' (l_head l1) as'"
    using nx by (intro chain_frame [OF ch]) auto
  moreover have "ascending ?st' as'"
    using ascending_frame [of as' ?st' ?st] ky asc by blast
  ultimately show ?thesis
    using b ky by (auto simp: list_inv_def)
qed

lemma update_from_head:
  assumes inv: "list_inv l as"
  shows "\<exists>l' as'. update_from l HeadOf v f = Some (Inr l') \<and> update_post l v f as l' as'"
proof -
  let ?st = "l_store l"
  from inv have ch: "chain ?st (l_head l) as" and asc: "ascending ?st as"
    by (auto simp: list_inv_def)
  have "load l HeadOf = Inr (l_head l)" by simp
  from binFor_correct [OF this ch asc, of v]
  obtain l1 b as' where bf: "binFor l HeadOf v = Some (Inr (l1, b))"
    and post: "binFor_post l HeadOf v as l1 b as'"
    by auto
  let ?st1 = "l_store l1"
  from post have ch1: "chain ?st1 (l_head l1) as'" and asc1: "ascending ?st1 as'"
    and set1: "set as' = insert b (set as)" and key1: "b_value (?st1 ! b) = v"
    and keep: "\<forall>x<length ?st. b_value (?st1 ! x) = b_value (?st ! x)"
    and cnt: "v \<in> keys_of ?st as \<longrightarrow> length as' = length as \<and> l_length l1 = l_length l"
      "v \<notin> keys_of ?st as \<longrightarrow> length as' = Suc (length as) \<and> l_length l1 = l_length l + 1"
    and tot: "l_totalFreq l1 = l_totalFreq l"
    unfolding binFor_post_def by auto
  from set1 have b: "b \<in> set as'" by simp
  from update_finish [OF bf ch1 asc1 b, of f]
  obtain l' where up: "update_from l HeadOf v f = Some (Inr l')" and inv': "list_inv l' as'"
    and keep': "\<forall>x. b_value (l_store l' ! x) = b_value (?st1 ! x)"
    and len': "l_length l' = l_length l1" and tot': "l_totalFreq l' = l_totalFreq l1 + f"
    by blast
  have bound: "\<forall>x\<in>set as. x < length ?st"
    using chain_bound [OF ch] by auto
  have "keys_of (l_store l') as' = insert v (keys_of ?st as)"
    using set1 key1 keep keep' bound by (auto simp: keys_of_def)
  with up inv' cnt tot len' tot' show ?thesis
    unfolding update_post_def by auto
qed

lemma update_from_curr:
  assumes inv: "list_inv l as"
    and cur: "l_curr l = Some c"
    and le: "b_value (l_store l ! c) \<le> v"
  shows "\<exists>l' as'. update_from l CurrOf v f = Some (Inr l') \<and> update_post l v f as l' as'"
proof -
  let ?st = "l_store l"
  from inv cur have ch: "chain ?st (l_head l) as" and asc: "ascending ?st as"
    and cin: "c \<in> set as"
    by (auto simp: list_inv_def)
  from cin obtain pre post where as: "as = pre @ c # post"
    by (auto simp: in_set_conv_decomp)
  from ch as obtain q where "chain ?st q (c # post)"
    using chain_suffix by blast
  then have chc: "chain ?st (Some c) (c # post)" by simp
  from asc as have ascp: "ascending ?st pre" and ascc: "ascending ?st (c # post)"
    and cross: "\<forall>x\<in>set pre. \<forall>y\<in>set (c # post). b_value (?st ! x) < b_value (?st ! y)"
    by (simp_all add: ascending_append)
  from ascending_distinct [OF asc] as have dis: "set pre \<inter> set (c # post) = {}"
    by auto
  have bound: "\<forall>x\<in>set as. x < length ?st"
    using chain_bound [OF ch] by auto
  have ld: "load l CurrOf = Inr (Some c)"
    using cur by simp
  from binFor_correct [OF ld chc ascc, of v]
  obtain l1 b rest' where bf: "binFor l CurrOf v = Some (Inr (l1, b))"
    and post: "binFor_post l CurrOf v (c # post) l1 b rest'"
    by auto
  let ?st1 = "l_store l1"
  from post le have "rest' \<noteq> [] \<and> hd rest' = c"
    by (simp add: binFor_post_def)
  then obtain post' where rest': "rest' = c # post'"
    by (cases rest') auto
  from post le rest' have ch1: "chain ?st1 (Some c) (c # post')"
    and asc1: "ascending ?st1 (c # post')"
    and set1: "set (c # post') = insert b (set (c # post))"
    and key1: "b_value (?st1 ! b) = v"
    and len1: "length ?st \<le> length ?st1"
    and keep: "\<forall>x<length ?st. b_value (?st1 ! x) = b_value (?st ! x)"
    and frame: "\<forall>x<length ?st. x \<notin> set (c # post) \<longrightarrow> ?st1 ! x = ?st ! x"
    and hd1: "l_head l1 = l_head l"
    and tot: "l_totalFreq l1 = l_totalFreq l"
    and cnt: "v \<in> keys_of ?st (c # post) \<longrightarrow>
                length (c # post') = length (c # post) \<and> l_length l1 = l_length l"
      "v \<notin> keys_of ?st (c # post) \<longrightarrow>
         length (c # post') = Suc (length (c # post)) \<and> l_length l1 = l_length l + 1"
    unfolding binFor_post_def using ld cur by simp_all
  let ?as' = "pre @ c # post'"
  have pre_same: "\<forall>x\<in>set pre. ?st1 ! x = ?st ! x"
    using frame dis bound as by auto
  have ch': "chain ?st1 (l_head l1) ?as'"
    unfolding hd1
  proof (rule chain_splice [where rest = post and st = ?st])
    show "chain ?st (l_head l) (pre @ c # post)"
      using ch as by simp
    show "length ?st \<le> length ?st1"
      by (rule len1)
    show "\<forall>x\<in>set pre. b_next (?st1 ! x) = b_next (?st ! x)"
      using pre_same by simp
    show "chain ?st1 (b_next (?st1 ! c)) post'"
      using ch1 by simp
  qed
  have prekeys: "\<forall>x\<in>set pre. b_value (?st ! x) < v"
    using cross le by auto
  have asc': "ascending ?st1 ?as'"
    unfolding ascending_append
  proof (intro conjI ballI)
    show "ascending ?st1 pre"
      using ascending_frame [of pre ?st1 ?st] pre_same ascp by auto
    show "ascending ?st1 (c # post')" by (rule asc1)
    fix x y assume x: "x \<in> set pre" and y: "y \<in> set (c # post')"
    from x pre_same have kx: "b_value (?st1 ! x) = b_value (?st ! x)" by simp
    from y set1 have "y = b \<or> y \<in> set (c # post)" by auto
    then show "b_value (?st1 ! x) < b_value (?st1 ! y)"
    proof
      assume "y = b"
      with key1 kx prekeys x show ?thesis by simp
    next
      assume yo: "y \<in> set (c # post)"
      with bound as have "y < length ?st" by auto
      with keep have "b_value (?st1 ! y) = b_value (?st ! y)" by simp
      moreover from cross x yo have "b_value (?st ! x) < b_value (?st ! y)"
        by blast
      ultimately show ?thesis
        using kx by simp
    qed
  qed
  from set1 have b: "b \<in> set ?as'" by auto
  from update_finish [OF bf ch' asc' b, of f]
  obtain l' where up: "update_from l CurrOf v f = Some (Inr l')" and inv': "list_inv l' ?as'"
    and keep': "\<forall>x. b_value (l_store l' ! x) = b_value (?st1 ! x)"
    and len': "l_length l' = l_length l1" and tot': "l_totalFreq l' = l_totalFreq l1 + f"
    by blast
  have notpre: "v \<notin> keys_of ?st pre"
    using prekeys by (auto simp: keys_of_def)
  have kin: "v \<in> keys_of ?st as \<longleftrightarrow> v \<in> keys_of ?st (c # post)"
    using notpre as by (auto simp: keys_of_def)
  have set': "set ?as' = insert b (set as)"
    using set1 as by auto
  have keys': "keys_of (l_store l') ?as' = insert v (keys_of ?st as)"
    using set' key1 keep keep' bound by (auto simp: keys_of_def)
  have "update_post l v f as l' ?as'"
    unfolding update_post_def
    using inv' keys' kin cnt as len' tot' tot by auto
  with up show ?thesis by blast
qed

lemma update_correct:
  assumes inv: "list_inv l as"
  shows "\<exists>l' as'. update l v f = Some (Inr l') \<and> update_post l v f as l' as'"
proof (cases "l_curr l")
  case None
  with update_from_head [OF inv, of v f] show ?thesis
    by (simp add: update_def)
next
  case (Some c)
  with inv have cin: "c \<in> set as" and ch: "chain (l_store l) (l_head l) as"
    by (auto simp: list_inv_def)
  then have hd: "l_head l \<noteq> None" by (cases as) auto
  from chain_bound [OF ch] cin have dr: "deref l (l_curr l) = Inr (l_store l ! c)"
    using Some by (auto simp: deref_def)
  show ?thesis
  proof (cases "v < b_value (l_store l ! c)")
    case True
    with update_from_head [OF inv, of v f] Some hd dr show ?thesis
      by (simp add: update_def)
  next
    case False
    then have "b_value (l_store l ! c) \<le> v" by simp
    from update_from_curr [OF inv Some this, of f] Some hd dr False show ?thesis
      by (simp add: update_def)
  qed
qed

lemma hBinList_inv_iff: "hBinList_inv l \<longleftrightarrow> (\<exists>as. list_inv l as)"
proof
  assume "hBinList_inv l"
  then obtain as where b: "bins_of l = Some as" and a: "ascending (l_store l) as"
    and c: "case l_curr l of None \<Rightarrow> True | Some a \<Rightarrow> a \<in> set as"
    by (auto simp: hBinList_inv_def split: option.splits)
  from b a have "chain (l_store l) (l_head l) as"
    by (simp add: bins_of_iff)
  with a c have "list_inv l as"
    by (auto simp: list_inv_def split: option.splits)
  then show "\<exists>as. list_inv l as" ..
next
  assume "\<exists>as. list_inv l as"
  then obtain as where i: "list_inv l as" ..
  then have "bins_of l = Some as"
    by (simp add: list_inv_def bins_of_iff)
  with i show "hBinList_inv l"
    by (auto simp: hBinList_inv_def list_inv_def)
qed

lemma list_inv_new: "list_inv newBinList []"
  by (simp add: list_inv_def newBinList_def ascending_def)

lemma updates_correct:
  assumes "list_inv l as"
  shows "\<exists>l' as'. updates l us = Some (Inr l') \<and> list_inv l' as' \<and>
           keys_of (l_store l') as' = keys_of (l_store l) as \<union> fst ` set us \<and>
           l_totalFreq l' = l_totalFreq l + sum_list (map snd us) \<and>
           (l_length l = of_nat (length as) \<longrightarrow> l_length l' = of_nat (length as'))"
  using assms
proof (induction us arbitrary: l as)
  case Nil
  then show ?case by auto
next
  case (Cons u us)
  obtain v f where u: "u = (v, f)" by (cases u)
  from update_correct [OF Cons.prems, of v f]
  obtain l1 as1 where up: "update l v f = Some (Inr l1)" and post: "update_post l v f as l1 as1"
    by blast
  from post have inv1: "list_inv l1 as1"
    and k1: "keys_of (l_store l1) as1 = insert v (keys_of (l_store l) as)"
    and t1: "l_totalFreq l1 = l_totalFreq l + f"
    and n1: "l_length l = of_nat (length as) \<longrightarrow> l_length l1 = of_nat (length as1)"
    by (auto simp: update_post_def)
  from Cons.IH [OF inv1]
  obtain l' as' where r: "updates l1 us = Some (Inr l')" and inv': "list_inv l' as'"
    and k': "keys_of (l_store l') as' = keys_of (l_store l1) as1 \<union> fst ` set us"
    and t': "l_totalFreq l' = l_totalFreq l1 + sum_list (map snd us)"
    and n': "l_length l1 = of_nat (length as1) \<longrightarrow> l_length l' = of_nat (length as')"
    by blast
  have "updates l (u # us) = Some (Inr l')"
    using u up r by simp
  moreover have "keys_of (l_store l') as' = keys_of (l_store l) as \<union> fst ` set (u # us)"
    using k' k1 u by auto
  moreover have "l_totalFreq l' = l_totalFreq l + sum_list (map snd (u # us))"
    using t' t1 u by simp
  ultimately show ?case
    using inv' n1 n' by blast
qed

lemma ascending_card:
  assumes "ascending st as"
  shows "card (keys_of st as) = length as"
proof -
  have "distinct (map (\<lambda>a. b_value (st ! a)) as)"
    using assms by (simp add: ascending_def strict_sorted_iff)
  then have "card (set (map (\<lambda>a. b_value (st ! a)) as)) = length (map (\<lambda>a. b_value (st ! a)) as)"
    by (rule distinct_card)
  then show ?thesis by (simp add: keys_of_def)
qed

lemma hBinList_inv_updates:
  "\<exists>l. updates newBinList us = Some (Inr l) \<and> hBinList_inv l"
proof -
  from updates_correct [OF list_inv_new, of us]
  obtain l' as' where "updates newBinList us = Some (Inr l')" and "list_inv l' as'"
    by blast
  then show ?thesis
    unfolding hBinList_inv_iff by blast
qed

lemma hBinList_inv_update:
  assumes "hBinList_inv l"
  shows "\<exists>l'. update l v f = Some (Inr l') \<and> hBinList_inv l'"
proof -
  from assms obtain as where "list_inv l as"
    unfolding hBinList_inv_iff ..
  from update_correct [OF this, of v f]
  obtain l' as' where "update l v f = Some (Inr l')" and "list_inv l' as'"
    unfolding update_post_def by blast
  then show ?thesis
    unfolding hBinList_inv_iff by blast
qed

text \<open>
  Claim C8. Every bin list reached from a fresh list by \<^verbatim>\<open>update\<close> calls satisfies the
  invariant (the chain is strictly ascending by key, the cursor is nil or a cell of the
  chain), and every further \<^verbatim>\<open>update\<close> of a list that satisfies it returns, without a
  panic, a list that satisfies it.
\<close>

theorem update_preserves_invariant:
  "(\<exists>l. updates newBinList us = Some (Inr l) \<and> hBinList_inv l) \<and>
   (\<forall>l value freq. hBinList_inv l \<longrightarrow>
      (\<exists>l'. update l value freq = Some (Inr l') \<and> hBinList_inv l'))"
  using hBinList_inv_updates hBinList_inv_update by simp

theorem update_preserves_invariant_witness:
  "hBinList_inv
     \<lparr>l_store = [\<lparr>b_value = 5, b_freq = 1, b_next = None\<rparr>,
                 \<lparr>b_value = 3, b_freq = 1, b_next = Some 0\<rparr>],
      l_length = 2, l_totalFreq = 2, l_head = Some 1, l_curr = Some 1\<rparr> \<and>
   (\<exists>l'. update
           \<lparr>l_store = [\<lparr>b_value = 5, b_freq = 1, b_next = None\<rparr>,
                       \<lparr>b_value = 3, b_freq = 1, b_next = Some 0\<rparr>],
            l_length = 2, l_totalFreq = 2, l_head = Some 1, l_curr = Some 1\<rparr> 7 1 = Some (Inr l') \<and>
         hBinList_inv l')"
proof -
  let ?l = "\<lparr>l_store = [\<lparr>b_value = 5, b_freq = 1, b_next = None\<rparr>,
                        \<lparr>b_value = 3, b_freq = 1, b_next = Some 0\<rparr>],
             l_length = 2, l_totalFreq = 2, l_head = Some 1, l_curr = Some (1::nat)\<rparr>"
  have h: "hBinList_inv ?l"
    by (simp add: hBinList_inv_def bins_of_def ascending_def)
  with update_preserves_invariant [of "[]"] show ?thesis
    by blast
qed

section \<open>Rounding\<close>

lemma round_even_of_int: "round_even (of_int z) = z"
  by (simp add: round_even_def)

lemma round_even_bounds:
  assumes "of_int a \<le> m" and "m \<le> of_int b"
  shows "a \<le> round_even m \<and> round_even m \<le> b"
proof -
  have f: "a \<le> \<lfloor>m\<rfloor>"
    using assms(1) by (simp add: le_floor_iff)
  have c: "\<lceil>m\<rceil> \<le> b"
    using assms(2) by (simp add: ceiling_le_iff)
  have "\<lfloor>m\<rfloor> \<le> round_even m"
    by (simp add: round_even_def Let_def)
  moreover have "round_even m \<le> \<lceil>m\<rceil>"
  proof (cases "m = of_int \<lfloor>m\<rfloor>")
    case True
    then have "round_even m = \<lfloor>m\<rfloor>"
      by (metis round_even_of_int)
    then show ?thesis
      by (simp add: floor_le_ceiling)
  next
    case False
    then have "\<lceil>m\<rceil> = \<lfloor>m\<rfloor> + 1"
      by (simp add: ceiling_altdef)
    then show ?thesis
      by (simp add: round_even_def Let_def)
  qed
  ultimately show ?thesis
    using f c by linarith
qed

lemma exponent_from_stop: "x < 2 powi (e + 1) \<Longrightarrow> exponent_from n e x = e"
  by (cases n) simp_all

lemma exponent_from_eq:
  assumes "e0 \<le> e" and "e - e0 \<le> int n" and "2 powi e \<le> x" and "x < 2 powi (e + 1)"
  shows "exponent_from n e0 x = e"
  using assms
proof (induction n arbitrary: e0)
  case 0
  then show ?case by simp
next
  case (Suc n)
  show ?case
  proof (cases "e0 = e")
    case True
    with Suc.prems show ?thesis by simp
  next
    case False
    with Suc.prems have lt: "e0 + 1 \<le> e" by simp
    then have "(2::real) powi (e0 + 1) \<le> 2 powi e"
      by (rule power_int_increasing) simp
    with Suc.prems have "2 powi (e0 + 1) \<le> x" by linarith
    moreover have "exponent_from n (e0 + 1) x = e"
      using lt Suc.prems by (intro Suc.IH) auto
    ultimately show ?thesis by simp
  qed
qed

lemma float64_exponent_eq:
  assumes "2 powi e \<le> \<bar>x\<bar>" and "\<bar>x\<bar> < 2 powi (e + 1)" and "- 1022 \<le> e" and "e \<le> 1023"
  shows "float64_exponent x = e"
  unfolding float64_exponent_def
  using assms by (intro exponent_from_eq) auto

lemma float64_round_eval:
  assumes "2 powi e \<le> \<bar>x\<bar>" and "\<bar>x\<bar> < 2 powi (e + 1)" and "- 1022 \<le> e" and "e \<le> 1023"
    and "r = of_int (round_even (x / 2 powi (e - 52))) * 2 powi (e - 52)"
    and "\<bar>r\<bar> < 2 ^ 1024"
  shows "float64_round x = Finite r"
  using assms(5,6)
  unfolding float64_round_def float64_nearest_def float64_exponent_eq [OF assms(1-4)]
  by (simp add: Let_def)


lemma float64_round_zero: "float64_round 0 = Finite 0"
proof -
  have "exponent_from 2046 (- 1022) 0 = - 1022"
    by (rule exponent_from_stop) simp
  then show ?thesis
    by (simp add: float64_round_def float64_nearest_def float64_exponent_def round_even_def)
qed

lemma float64_round_of_nat:
  assumes "n < 2 ^ 53"
  shows "float64_round (real n) = Finite (real n)"
proof (cases "n = 0")
  case True
  then show ?thesis by (simp add: float64_round_zero)
next
  case False
  then have "1 \<le> n" by simp
  with ex_power_ivl1 [of 2 n] obtain k where k: "2 ^ k \<le> n" "n < 2 ^ (k + 1)"
    by auto
  from k(1) assms have "(2::nat) ^ k < 2 ^ 53" by simp
  then have "k < 53"
    by (rule power_less_imp_less_exp [rotated]) simp
  then have k52: "k \<le> 52"
    by simp
  define j where "j = 52 - k"
  have q: "int k - 52 = - int j"
    using k52 by (simp add: j_def)
  have p: "(2::real) powi (int k - 52) = 1 / 2 ^ j"
    unfolding q by (simp add: power_int_minus_divide)
  have "real n / 2 powi (int k - 52) = of_int (int n * 2 ^ j)"
    unfolding p by simp
  then have re: "round_even (real n / 2 powi (int k - 52)) = int n * 2 ^ j"
    by (simp only: round_even_of_int)
  show ?thesis
  proof (rule float64_round_eval [where e = "int k"])
    show "2 powi int k \<le> \<bar>real n\<bar>"
      using k(1) by (simp add: of_nat_le_iff [of "2 ^ k" n, where ?'a = real, simplified])
    have "real n < real (2 ^ (k + 1))"
      using k(2) by (rule of_nat_less_iff [THEN iffD2])
    then show "\<bar>real n\<bar> < 2 powi (int k + 1)"
      by (simp add: power_int_add)
    show "- 1022 \<le> int k" by simp
    show "int k \<le> 1023" using k52 by simp
    show "real n = of_int (round_even (real n / 2 powi (int k - 52))) * 2 powi (int k - 52)"
      by (simp only: re) (simp add: p)
    have "real n < real (2 ^ 53)"
      using assms by (rule of_nat_less_iff [THEN iffD2])
    also have "\<dots> < 2 ^ 1024" by simp
    finally show "\<bar>real n\<bar> < 2 ^ 1024" by simp
  qed
qed

lemma float64_round_bounds:
  assumes "2 powi e \<le> x" and "x < 2 powi (e + 1)" and "- 1022 \<le> e" and "e \<le> 1022"
  shows "\<exists>y. float64_round x = Finite y \<and> 2 powi e \<le> y \<and> y \<le> 2 powi (e + 1)"
proof -
  have pos: "0 < (2::real) powi (e - 52)" by (simp add: zero_less_power_int)
  have x0: "0 < x"
    using assms(1) zero_less_power_int [of "2::real" e] by linarith
  let ?m = "x / 2 powi (e - 52)"
  have a: "(2::real) powi e = of_int (2 ^ 52) * 2 powi (e - 52)"
    using power_int_add [of "2::real" 52 "e - 52"] by simp
  have b: "(2::real) powi (e + 1) = of_int (2 ^ 53) * 2 powi (e - 52)"
    using power_int_add [of "2::real" 53 "e - 52"] by (simp add: add.commute)
  have "of_int (2 ^ 52) \<le> ?m"
    using assms(1) pos unfolding a by (simp add: pos_le_divide_eq)
  moreover have "?m \<le> of_int (2 ^ 53)"
    using assms(2) pos unfolding b by (simp add: pos_divide_le_eq)
  ultimately have rb: "2 ^ 52 \<le> round_even ?m \<and> round_even ?m \<le> 2 ^ 53"
    by (rule round_even_bounds)
  define r where "r = of_int (round_even ?m) * (2::real) powi (e - 52)"
  have lo: "2 powi e \<le> r"
    unfolding a r_def using rb pos by (intro mult_right_mono) auto
  have hi: "r \<le> 2 powi (e + 1)"
    unfolding b r_def using rb pos by (intro mult_right_mono) auto
  have "(2::real) powi (e + 1) \<le> 2 powi 1023"
    using assms(4) by (intro power_int_increasing) auto
  also have "\<dots> < 2 ^ 1024" by simp
  finally have "r < 2 ^ 1024" using hi by linarith
  moreover have "0 \<le> r"
    using lo zero_less_power_int [of "2::real" e] by linarith
  ultimately have "\<bar>r\<bar> < 2 ^ 1024" by simp
  with assms x0 have "float64_round x = Finite r"
    by (intro float64_round_eval [where e = e]) (auto simp: r_def)
  with lo hi show ?thesis by blast
qed

lemma float64_round_ln2: "\<exists>y. float64_round (ln 2) = Finite y \<and> 1 / 2 \<le> y"
proof -
  have "ln ((1::real) / 2) \<le> 1 / 2 - 1"
    by (rule ln_le_minus_one) simp
  then have "(1::real) / 2 \<le> ln 2"
    by (simp add: ln_div)
  moreover have "ln (2::real) < 1"
    using ln_2_less_1 by simp
  ultimately have "\<exists>y. float64_round (ln 2) = Finite y \<and> 2 powi (- 1) \<le> y \<and> y \<le> 2 powi (- 1 + 1)"
    by (intro float64_round_bounds) (simp_all add: power_int_minus_divide)
  then show ?thesis
    by (auto simp: power_int_minus_divide)
qed

lemma float64_round_one: "float64_round 1 = Finite 1"
  using float64_round_of_nat [of 1] by simp

lemma float64_round_numeral:
  "numeral k < (2::nat) ^ 53 \<Longrightarrow> float64_round (numeral k) = Finite (numeral k)"
  using float64_round_of_nat [of "numeral k"] by simp

lemma float64_nearest_of_nat:
  assumes "n < 2 ^ 53"
  shows "float64_nearest (real n) = real n"
proof -
  from float64_round_of_nat [OF assms] show ?thesis
    by (simp add: float64_round_def Let_def split: if_splits)
qed

lemma float64_nearest_numeral:
  "numeral k < (2::nat) ^ 53 \<Longrightarrow> float64_nearest (numeral k) = numeral k"
  using float64_nearest_of_nat [of "numeral k"] by simp

lemma float64_of_uint_small:
  assumes "unat u < 2 ^ 53"
  shows "float64_of_uint u = Finite (real (unat u))"
proof -
  have "real_of_int (uint u) = real (unat u)"
    by simp
  with float64_round_of_nat [OF assms] show ?thesis
    by (simp only: float64_of_uint_def)
qed

section \<open>The codecs\<close>

lemma unat_div_mult: "unat ((v::uint) div w * w) = unat v div unat w * unat w"
proof -
  have "unat v div unat w * unat w \<le> unat v" by simp
  also have "\<dots> < 2 ^ 64" using unsigned_less [of v] by simp
  finally have "unat v div unat w * unat w < 2 ^ LENGTH(64)" by simp
  then show ?thesis
    by (simp add: unat_mult_lem [THEN iffD1] unat_div)
qed

text \<open>
  Claim C6. For the linear codec with a bin width other than 0 and every value \<open>v\<close>,
  \<open>decode (encode v) \<le> v < decode (encode v) + binWidth\<close>. The upper bound is read in the
  natural numbers: the \<^verbatim>\<open>uint\<close> sum on its right wraps around for the values of the last bin.
\<close>

theorem defaultCodec_bracket:
  assumes "binWidth \<noteq> 0"
  shows "\<exists>k d. encode (DefaultCodec binWidth) v = Inr k \<and> decode (DefaultCodec binWidth) k = Inr d \<and>
           d \<le> v \<and> unat v < unat d + unat binWidth"
proof -
  let ?d = "v div binWidth * binWidth"
  have w: "0 < unat binWidth"
    using assms by (simp add: unat_gt_0)
  have u: "unat ?d = unat v div unat binWidth * unat binWidth"
    by (rule unat_div_mult)
  have "unat ?d \<le> unat v"
    unfolding u by simp
  then have le: "?d \<le> v"
    by (simp add: word_le_nat_alt)
  have "unat v < unat ?d + unat binWidth"
    unfolding u using w
    by (metis add.commute dividend_less_div_times)
  with le assms show ?thesis
    by (simp add: defaultCodec_encode_def defaultCodec_decode_def)
qed

theorem defaultCodec_bracket_witness:
  "(2::uint) \<noteq> 0 \<and> (\<exists>k d. encode (DefaultCodec 2) 18446744073709551615 = Inr k \<and>
      decode (DefaultCodec 2) k = Inr d \<and> d \<le> 18446744073709551615 \<and>
      unat (18446744073709551615::uint) < unat d + unat (2::uint))"
proof -
  have h: "(2::uint) \<noteq> 0" by simp
  from defaultCodec_bracket [OF h, of 18446744073709551615] h show ?thesis by blast
qed

text \<open>
  Claim C7. \<^verbatim>\<open>New\<close> fails exactly when the bin width is 0 and \<^verbatim>\<open>NewExp\<close> exactly when the
  base is below 2; on failure there is an error and no histogram, otherwise the
  histogram holds the codec and a fresh bin list.
\<close>

theorem New_fails_iff:
  "(isl (New binWidth) \<longleftrightarrow> binWidth = 0) \<and>
   (isl (NewExp logBase) \<longleftrightarrow> logBase < 2) \<and>
   New binWidth =
     (if binWidth = 0 then Inl (ErrInvalidBinWidth binWidth)
      else Inr \<lparr>h_codec = DefaultCodec binWidth, h_binList = newBinList\<rparr>) \<and>
   NewExp logBase =
     (if logBase < 2 then Inl (ErrInvalidLogBase logBase)
      else Inr \<lparr>h_codec = ExpCodec logBase, h_binList = newBinList\<rparr>)"
  by (simp add: New_def NewExp_def newDefaultCodec_def newExpCodec_def)

text \<open>
  Claim C1. With base 2 the keys \<open>0, 1, 1, 2, 2, 2, 2, 3, \<dots>, 3, 4\<close> that the claim gives for
  the inputs 0 to 15 decode to \<open>1, 2, 2, 4, 4, 4, 4, 8, \<dots>, 8, 16\<close>, the powers of 2, not to
  \<open>0, 1, 1, 3, 3, 3, 3, 7, \<dots>, 7, 15\<close>: already the input 0 is encoded as 0 and
  decoded as 1.
\<close>

theorem expCodec_base2_decode:
  "expCodec_encode 2 0 = Inr 0 \<and>
   expCodec_decode 2 0 = Inr 1 \<and>
   map (expCodec_decode 2) [0, 1, 1, 2, 2, 2, 2, 3, 3, 3, 3, 3, 3, 3, 3, 4] =
     map Inr [1, 2, 2, 4, 4, 4, 4, 8, 8, 8, 8, 8, 8, 8, 8, 16]"
proof -
  from float64_round_ln2 obtain y where y: "float64_round (ln 2) = Finite y" "1 / 2 \<le> y"
    by blast
  then have "y \<noteq> 0" by auto
  with y have "expCodec_encode 2 0 = Inr 0"
    by (simp add: expCodec_encode_def float64_of_uint_def float64_to_uint_def
        float64_round_zero float64_round_numeral Let_def)
  then show ?thesis
    by (simp add: expCodec_decode_def math_Pow_uint_def float64_to_uint_def
        float64_nearest_numeral float64_round_one float64_round_numeral)
qed

section \<open>The iterator\<close>



text \<open>
  Claim C2, as the code has it. On an iterator that is done, \<^verbatim>\<open>Next\<close>, \<^verbatim>\<open>Freq\<close> and
  \<^verbatim>\<open>Percentile\<close> panic on the nil bin they dereference; \<^verbatim>\<open>PRank\<close> reads no bin and
  returns the quotient of the accumulated and the total frequency, times 100.
\<close>

theorem done_accessors:
  assumes "Done i"
  shows "Next l i = Inl PanicNilDereference \<and>
         Freq l i = Inl PanicNilDereference \<and>
         Percentile_iter l i = Inl PanicNilDereference \<and>
         PRank l i =
           Inr (float64_mul
                  (float64_div (float64_of_uint (i_cumFreq i)) (float64_of_uint (l_totalFreq l)))
                  (Finite 100))"
  using assms
  by (simp add: Done_def Next_def Freq_def Percentile_iter_def PRank_def deref_def)

theorem done_accessors_witness:
  "Done (newIter newBinList (DefaultCodec 1)) \<and>
   Next newBinList (newIter newBinList (DefaultCodec 1)) = Inl PanicNilDereference \<and>
   Freq newBinList (newIter newBinList (DefaultCodec 1)) = Inl PanicNilDereference \<and>
   Percentile_iter newBinList (newIter newBinList (DefaultCodec 1)) = Inl PanicNilDereference \<and>
   PRank newBinList (newIter newBinList (DefaultCodec 1)) = Inr NaN"
proof -
  have h: "Done (newIter newBinList (DefaultCodec 1))"
    by (simp add: Done_def newIter_def newBinList_def)
  from done_accessors [OF h, of newBinList] h show ?thesis
    by (simp add: newIter_def newBinList_def float64_of_uint_def float64_round_zero)
qed

text \<open>
  Claim C2, as it is stated, fails for \<^verbatim>\<open>PRank\<close>: the iterator over the list with the one
  bin of key 1 and frequency 1 is done after one \<^verbatim>\<open>Next\<close>, and \<^verbatim>\<open>PRank\<close> then returns 100.
\<close>

theorem done_PRank_returns:
  "updates newBinList [(1, 1)] =
     Some (Inr \<lparr>l_store = [\<lparr>b_value = 1, b_freq = 1, b_next = None\<rparr>],
                l_length = 1, l_totalFreq = 1, l_head = Some 0, l_curr = Some 0\<rparr>) \<and>
   Nexts 1
     \<lparr>l_store = [\<lparr>b_value = 1, b_freq = 1, b_next = None\<rparr>],
      l_length = 1, l_totalFreq = 1, l_head = Some 0, l_curr = Some 0\<rparr>
     (iter
        \<lparr>l_store = [\<lparr>b_value = 1, b_freq = 1, b_next = None\<rparr>],
         l_length = 1, l_totalFreq = 1, l_head = Some 0, l_curr = Some 0\<rparr>
        (DefaultCodec 1)) =
     Inr \<lparr>i_curr = None, i_cumFreq = 1, i_codec = DefaultCodec 1\<rparr> \<and>
   Done \<lparr>i_curr = None, i_cumFreq = 1, i_codec = DefaultCodec 1\<rparr> \<and>
   PRank
     \<lparr>l_store = [\<lparr>b_value = 1, b_freq = 1, b_next = None\<rparr>],
      l_length = 1, l_totalFreq = 1, l_head = Some 0, l_curr = Some 0\<rparr>
     \<lparr>i_curr = None, i_cumFreq = 1, i_codec = DefaultCodec 1\<rparr> = Inr (Finite 100)"
  by (simp add: newBinList_def update_def update_from_def binFor.simps binFor_insert_def
      deref_def hBin_update_def Let_def iter_def newIter_def Next_def Done_def PRank_def
      float64_of_uint_def float64_round_one float64_round_numeral)

lemma Nexts_numeral:
  "Nexts (numeral k) l i =
     (case Next l i of Inl e \<Rightarrow> Inl e | Inr i' \<Rightarrow> Nexts (pred_numeral k) l i')"
  by (simp add: numeral_eq_Suc)

text \<open>
  The ranks of the five positions: the quotient \<open>c / 55\<close> rounded to a double, times 100,
  rounded again.
\<close>

lemma rank_1:
  "float64_mul (float64_div (Finite 1) (Finite 55)) (Finite 100) = Finite (8188362958855447 / 2 ^ 52)"
proof -
  have q: "float64_round (1 / 55) = Finite (2620276146833743 / 2 ^ 57)"
    by (rule float64_round_eval [where e = "- 6"])
      (simp_all add: round_even_def Let_def power_int_minus_divide)
  have p: "float64_round (2620276146833743 / 2 ^ 57 * 100) = Finite (8188362958855447 / 2 ^ 52)"
    by (rule float64_round_eval [where e = 0])
      (simp_all add: round_even_def Let_def power_int_minus_divide)
  have "float64_div (Finite 1) (Finite 55) = float64_round (1 / 55)"
    by simp
  then show ?thesis
    by (simp only: q float64_mul.simps p)
qed

lemma rank_5:
  "float64_mul (float64_div (Finite 5) (Finite 55)) (Finite 100) = Finite (5117726849284655 / 2 ^ 49)"
proof -
  have q: "float64_round (5 / 55) = Finite (3275345183542179 / 2 ^ 55)"
    by (rule float64_round_eval [where e = "- 4"])
      (simp_all add: round_even_def Let_def power_int_minus_divide)
  have p: "float64_round (3275345183542179 / 2 ^ 55 * 100) = Finite (5117726849284655 / 2 ^ 49)"
    by (rule float64_round_eval [where e = 3])
      (simp_all add: round_even_def Let_def power_int_minus_divide)
  have "float64_div (Finite 5) (Finite 55) = float64_round (5 / 55)"
    by simp
  then show ?thesis
    by (simp only: q float64_mul.simps p)
qed

lemma rank_14:
  "float64_mul (float64_div (Finite 14) (Finite 55)) (Finite 100) = Finite (1791204397249629 / 2 ^ 46)"
proof -
  have q: "float64_round (14 / 55) = Finite (2292741628479525 / 2 ^ 53)"
    by (rule float64_round_eval [where e = "- 2"])
      (simp_all add: round_even_def Let_def power_int_minus_divide)
  have p: "float64_round (2292741628479525 / 2 ^ 53 * 100) = Finite (1791204397249629 / 2 ^ 46)"
    by (rule float64_round_eval [where e = 4])
      (simp_all add: round_even_def Let_def power_int_minus_divide)
  have "float64_div (Finite 14) (Finite 55) = float64_round (14 / 55)"
    by simp
  then show ?thesis
    by (simp only: q float64_mul.simps p)
qed

lemma rank_30:
  "float64_mul (float64_div (Finite 30) (Finite 55)) (Finite 100) = Finite (7676590273926981 / 2 ^ 47)"
proof -
  have q: "float64_round (30 / 55) = Finite (1228254443828317 / 2 ^ 51)"
    by (rule float64_round_eval [where e = "- 1"])
      (simp_all add: round_even_def Let_def power_int_minus_divide)
  have p: "float64_round (1228254443828317 / 2 ^ 51 * 100) = Finite (7676590273926981 / 2 ^ 47)"
    by (rule float64_round_eval [where e = 5])
      (simp_all add: round_even_def Let_def power_int_minus_divide)
  have "float64_div (Finite 30) (Finite 55) = float64_round (30 / 55)"
    by simp
  then show ?thesis
    by (simp only: q float64_mul.simps p)
qed


lemma rank_0: "float64_mul (float64_div (Finite 0) (Finite 55)) (Finite 100) = Finite 0"
  by (simp add: float64_round_zero)

text \<open>
  Claim C9. After \<^verbatim>\<open>update(i, i*i)\<close> for \<open>i\<close> from 1 to 5 on a fresh list, an iterator with
  the linear codec of width 1 reads, at its five positions, the cumulative frequencies
  0, 1, 5, 14, 30, the decoded values 1 to 5 and the ranks \<open>c / 55 * 100\<close> for these
  cumulative frequencies \<open>c\<close>, none of them done; after the fifth \<^verbatim>\<open>Next\<close> it is done.
  The ranks are \<^verbatim>\<open>float64\<close> values: the doubles that the division and the multiplication
  of \<open>c / 55 * 100\<close> give, each within one part in \<open>2 ^ 52\<close> of the rational number.
\<close>

theorem iterate_squares:
  "updates newBinList [(1, 1 * 1), (2, 2 * 2), (3, 3 * 3), (4, 4 * 4), (5, 5 * 5)] =
     Some (Inr squares_list) \<and>
   map (observe squares_list (DefaultCodec 1)) [0, 1, 2, 3, 4] =
     [Inr (False, 0, Inr 1, Inr (Finite 0)),
      Inr (False, 1, Inr 2, Inr (Finite (8188362958855447 / 2 ^ 52))),
      Inr (False, 5, Inr 3, Inr (Finite (5117726849284655 / 2 ^ 49))),
      Inr (False, 14, Inr 4, Inr (Finite (1791204397249629 / 2 ^ 46))),
      Inr (False, 30, Inr 5, Inr (Finite (7676590273926981 / 2 ^ 47)))] \<and>
   map_sum id fst (observe squares_list (DefaultCodec 1) 5) = Inr True \<and>
   map (\<lambda>c. float64_mul (float64_div (Finite c) (Finite 55)) (Finite 100)) [0, 1, 5, 14, 30] =
     [Finite 0,
      Finite (8188362958855447 / 2 ^ 52),
      Finite (5117726849284655 / 2 ^ 49),
      Finite (1791204397249629 / 2 ^ 46),
      Finite (7676590273926981 / 2 ^ 47)] \<and>
   list_all (\<lambda>(c, r). \<bar>r - c / 55 * 100\<bar> \<le> c / 55 * 100 / 2 ^ 52)
     [(1, 8188362958855447 / 2 ^ 52),
      (5, 5117726849284655 / 2 ^ 49),
      (14, 1791204397249629 / 2 ^ 46),
      (30, 7676590273926981 / 2 ^ 47 :: real)]"
proof -
  have u: "updates newBinList [(1, 1 * 1), (2, 2 * 2), (3, 3 * 3), (4, 4 * 4), (5, 5 * 5)] =
      Some (Inr squares_list)"
    by (simp add: squares_list_def newBinList_def update_def update_from_def binFor.simps
        binFor_insert_def hBin_update_def Let_def deref_def)
  have o: "map (observe squares_list (DefaultCodec 1)) [0, 1, 2, 3, 4] =
     [Inr (False, 0, Inr 1, Inr (Finite 0)),
      Inr (False, 1, Inr 2, Inr (Finite (8188362958855447 / 2 ^ 52))),
      Inr (False, 5, Inr 3, Inr (Finite (5117726849284655 / 2 ^ 49))),
      Inr (False, 14, Inr 4, Inr (Finite (1791204397249629 / 2 ^ 46))),
      Inr (False, 30, Inr 5, Inr (Finite (7676590273926981 / 2 ^ 47)))]"
    by (simp add: squares_list_def observe_def iter_def newIter_def Next_def Done_def
        Percentile_iter_def PRank_def deref_def defaultCodec_decode_def Nexts_numeral
        float64_of_uint_small rank_0 rank_1 rank_5 rank_14 rank_30
        del: float64_div.simps float64_mul.simps)
  have d: "map_sum id fst (observe squares_list (DefaultCodec 1) 5) = Inr True"
    by (simp add: squares_list_def observe_def iter_def newIter_def Next_def Done_def
        deref_def Nexts_numeral)
  have r: "map (\<lambda>c. float64_mul (float64_div (Finite c) (Finite 55)) (Finite 100))
      [0, 1, 5, 14, 30] =
     [Finite 0,
      Finite (8188362958855447 / 2 ^ 52),
      Finite (5117726849284655 / 2 ^ 49),
      Finite (1791204397249629 / 2 ^ 46),
      Finite (7676590273926981 / 2 ^ 47)]"
    by (simp add: rank_0 rank_1 rank_5 rank_14 rank_30
        del: float64_div.simps float64_mul.simps)
  have e: "list_all (\<lambda>(c, r). \<bar>r - c / 55 * 100\<bar> \<le> c / 55 * 100 / 2 ^ 52)
     [(1, 8188362958855447 / 2 ^ 52),
      (5, 5117726849284655 / 2 ^ 49),
      (14, 1791204397249629 / 2 ^ 46),
      (30, 7676590273926981 / 2 ^ 47 :: real)]"
    by simp
  from u o d r e show ?thesis
    by (intro conjI)
qed

section \<open>Percentiles\<close>

lemma deref_error: "deref l p = Inl e \<Longrightarrow> e = PanicNilDereference \<or> e = InvalidAddress"
  by (auto simp: deref_def split: option.splits if_splits)

lemma decode_error: "decode c k = Inl e \<Longrightarrow> e = ImplementationDependent"
  by (cases c)
    (auto simp: defaultCodec_decode_def expCodec_decode_def float64_to_uint_def
      split: float64.splits if_splits)

lemma Percentile_result_error:
  "Percentile_result h b \<noteq> Inl (ErrInvalidPrank x)"
  by (auto simp: Percentile_result_def split: sum.splits dest: deref_error decode_error)

lemma Next_error: "Next l i = Inl e \<Longrightarrow> e = PanicNilDereference \<or> e = InvalidAddress"
  by (auto simp: Next_def split: sum.splits dest: deref_error)

lemma Percentile_loop_error:
  assumes "Percentile_loop l prank i b = Some y"
  shows "y \<noteq> Inl (ErrInvalidPrank x)"
proof (rule Percentile_loop.raw_induct
    [where P = "\<lambda>_ _ _ _ y. y \<noteq> Inl (ErrInvalidPrank x)", OF _ assms])
  fix loop l prank i b y
  assume "\<And>l prank i b y. loop l prank i b = Some y \<Longrightarrow> y \<noteq> Inl (ErrInvalidPrank x)"
    and "(if Done i then Some (Inr b)
          else case PRank l i of
                 Inl e \<Rightarrow> Some (Inl e)
               | Inr r \<Rightarrow>
                   if float64_gt r prank then Some (Inr b)
                   else (case Next l i of
                           Inl e \<Rightarrow> Some (Inl e)
                         | Inr i' \<Rightarrow> loop l prank i' (bin i))) = Some y"
  then show "y \<noteq> Inl (ErrInvalidPrank x)"
    by (auto simp: PRank_def split: if_splits sum.splits dest: Next_error)
qed

lemma last_loop_error:
  assumes "last_loop l b = Some y"
  shows "y \<noteq> Inl (ErrInvalidPrank x)"
proof (rule last_loop.raw_induct
    [where P = "\<lambda>_ _ y. y \<noteq> Inl (ErrInvalidPrank x)", OF _ assms])
  fix loop l b y
  assume "\<And>l b y. loop l b = Some y \<Longrightarrow> y \<noteq> Inl (ErrInvalidPrank x)"
    and "(case b of
            None \<Rightarrow> Some (Inr b)
          | Some a \<Rightarrow>
              (case deref l b of
                 Inl e \<Rightarrow> Some (Inl e)
               | Inr c \<Rightarrow> if b_next c \<noteq> None then loop l (b_next c) else Some (Inr b))) = Some y"
  then show "y \<noteq> Inl (ErrInvalidPrank x)"
    by (auto split: option.splits if_splits sum.splits dest: deref_error)
qed

lemma Percentile_loop_no_rank_error:
  "Percentile_loop l prank i b \<noteq> Some (Inl (ErrInvalidPrank x))"
  using Percentile_loop_error by blast

lemma last_loop_no_rank_error:
  "last_loop l b \<noteq> Some (Inl (ErrInvalidPrank x))"
  using last_loop_error by blast

lemma decode_zero: "\<exists>d. decode c 0 = Inr d"
  by (cases c)
    (simp_all add: defaultCodec_decode_def expCodec_decode_def float64_to_uint_def
      math_Pow_uint_def float64_round_one)

lemma Percentile_in_range_error:
  assumes "\<not> (float64_lt prank (Finite 0) \<or> float64_gt prank (Finite 100))"
  shows "Percentile h prank \<noteq> Some (Inl (ErrInvalidPrank x))"
proof -
  consider (empty) "l_length (h_binList h) = 0"
    | (zero) "l_length (h_binList h) \<noteq> 0" "float64_eq prank (Finite 0)"
    | (full) "l_length (h_binList h) \<noteq> 0" "\<not> float64_eq prank (Finite 0)"
        "float64_eq prank (Finite 100)"
    | (scan) "l_length (h_binList h) \<noteq> 0" "\<not> float64_eq prank (Finite 0)"
        "\<not> float64_eq prank (Finite 100)"
    by blast
  then show ?thesis
  proof cases
    case empty
    with assms decode_zero [of "h_codec h"] show ?thesis
      by (auto simp: Percentile_def)
  next
    case zero
    with assms show ?thesis
      by (simp add: Percentile_def Percentile_result_error)
  next
    case full
    with assms show ?thesis
      by (auto simp: Percentile_def last_bin_def Percentile_result_error last_loop_no_rank_error
          split: option.splits sum.splits)
  next
    case scan
    with assms show ?thesis
      by (auto simp: Percentile_def Let_def Percentile_result_error
          Percentile_loop_no_rank_error split: option.splits sum.splits)
  qed
qed

text \<open>
  Claim C3. \<^verbatim>\<open>Percentile\<close> returns the error for an invalid rank exactly when the rank is
  below 0 or above 100; and on a histogram that holds no bins, whose bin count is 0,
  every other rank gives \<open>decode 0\<close>, which is a value and not an error.
\<close>

theorem Percentile_rank_check:
  "((\<exists>x. Percentile h prank = Some (Inl (ErrInvalidPrank x))) \<longleftrightarrow>
      float64_lt prank (Finite 0) \<or> float64_gt prank (Finite 100)) \<and>
   (BinCount h = 0 \<and> \<not> float64_lt prank (Finite 0) \<and> \<not> float64_gt prank (Finite 100) \<longrightarrow>
      Percentile h prank = Some (decode (h_codec h) 0) \<and> (\<exists>d. decode (h_codec h) 0 = Inr d))"
proof (intro conjI iffI impI)
  assume "\<exists>x. Percentile h prank = Some (Inl (ErrInvalidPrank x))"
  then show "float64_lt prank (Finite 0) \<or> float64_gt prank (Finite 100)"
    using Percentile_in_range_error [of prank h] by blast
next
  assume "float64_lt prank (Finite 0) \<or> float64_gt prank (Finite 100)"
  then show "\<exists>x. Percentile h prank = Some (Inl (ErrInvalidPrank x))"
    by (simp add: Percentile_def)
next
  assume "BinCount h = 0 \<and> \<not> float64_lt prank (Finite 0) \<and> \<not> float64_gt prank (Finite 100)"
  then show "Percentile h prank = Some (decode (h_codec h) 0)"
    by (simp add: Percentile_def BinCount_def)
next
  show "\<exists>d. decode (h_codec h) 0 = Inr d"
    by (rule decode_zero)
qed

theorem Percentile_rank_check_witness:
  "BinCount \<lparr>h_codec = DefaultCodec 1, h_binList = newBinList\<rparr> = 0 \<and>
   \<not> float64_lt (Finite 50) (Finite 0) \<and> \<not> float64_gt (Finite 50) (Finite 100) \<and>
   Percentile \<lparr>h_codec = DefaultCodec 1, h_binList = newBinList\<rparr> (Finite 50) = Some (Inr 0) \<and>
   (\<exists>x. Percentile \<lparr>h_codec = DefaultCodec 1, h_binList = newBinList\<rparr> (Finite (- 1 / 10)) =
      Some (Inl (ErrInvalidPrank x)))"
  using Percentile_rank_check [of "\<lparr>h_codec = DefaultCodec 1, h_binList = newBinList\<rparr>" "Finite 50"]
    Percentile_rank_check
      [of "\<lparr>h_codec = DefaultCodec 1, h_binList = newBinList\<rparr>" "Finite (- 1 / 10)"]
  by (simp add: BinCount_def newBinList_def float64_gt_def defaultCodec_decode_def)

lemma last_loop_chain:
  "chain (l_store l) p as \<Longrightarrow> as \<noteq> [] \<Longrightarrow> last_loop l p = Some (Inr (Some (last as)))"
proof (induction as arbitrary: p)
  case Nil
  then show ?case by simp
next
  case (Cons a as)
  then have p: "p = Some a" and a: "a < length (l_store l)"
    and ch: "chain (l_store l) (b_next (l_store l ! a)) as"
    by auto
  show ?case
  proof (cases as)
    case Nil
    with ch have "b_next (l_store l ! a) = None" by simp
    with p a Nil show ?thesis
      by (subst last_loop.simps) (simp add: deref_def)
  next
    case (Cons c cs)
    with ch have n: "b_next (l_store l ! a) \<noteq> None" by auto
    from Cons.IH [OF ch] Cons have "last_loop l (b_next (l_store l ! a)) = Some (Inr (Some (last as)))"
      by simp
    with p a n Cons show ?thesis
      by (subst last_loop.simps) (simp add: deref_def)
  qed
qed

lemma sorted_le_last: "sorted (xs :: uint list) \<Longrightarrow> x \<in> set xs \<Longrightarrow> x \<le> last xs"
proof (induction xs)
  case Nil
  then show ?case by simp
next
  case (Cons y ys)
  show ?case
  proof (cases "ys = []")
    case True
    with Cons.prems show ?thesis by simp
  next
    case False
    then have "last ys \<in> set ys" by simp
    with Cons False show ?thesis by auto
  qed
qed

lemma ascending_extremes:
  assumes "ascending st as" and "a \<in> set as"
  shows "b_value (st ! hd as) \<le> b_value (st ! a) \<and> b_value (st ! a) \<le> b_value (st ! last as)"
proof -
  let ?ks = "map (\<lambda>a. b_value (st ! a)) as"
  from assms(2) have ne: "as \<noteq> []" by auto
  have s: "sorted ?ks"
    using assms(1) by (simp add: ascending_def strict_sorted_iff)
  have k: "b_value (st ! a) \<in> set ?ks"
    using assms(2) by auto
  have "hd ?ks \<le> b_value (st ! a)"
    using s k ne by (cases as) auto
  moreover have "b_value (st ! a) \<le> last ?ks"
    using s k by (rule sorted_le_last)
  ultimately show ?thesis
    using ne by (simp add: hd_map last_map)
qed

text \<open>
  The invariant and the agreement of the counter hold on a fresh list and are kept by
  every \<^verbatim>\<open>update\<close>, so they hold on every histogram built by \<^verbatim>\<open>Update\<close> calls.
\<close>

lemma update_wf:
  assumes "hBinList_inv l" and "counted l" and "update l v f = Some (Inr l')"
  shows "hBinList_inv l' \<and> counted l'"
proof -
  from assms(1) obtain as where inv: "list_inv l as"
    unfolding hBinList_inv_iff ..
  then have b: "bins_of l = Some as"
    by (simp add: list_inv_def bins_of_iff)
  with assms(2) have n: "l_length l = of_nat (length as)"
    by (simp add: counted_def)
  from update_correct [OF inv, of v f] assms(3)
  obtain as' where post: "update_post l v f as l' as'"
    by auto
  then have inv': "list_inv l' as'"
    by (simp add: update_post_def)
  then have b': "bins_of l' = Some as'"
    by (simp add: list_inv_def bins_of_iff)
  from post n have "l_length l' = of_nat (length as')"
    by (cases "v \<in> keys_of (l_store l) as") (simp_all add: update_post_def)
  with b' have "counted l'"
    by (simp add: counted_def)
  moreover from inv' have "hBinList_inv l'"
    unfolding hBinList_inv_iff ..
  ultimately show ?thesis by simp
qed

lemma Updates_wf:
  assumes "hBinList_inv (h_binList h)" and "counted (h_binList h)"
    and "Updates h vs = Some (Inr h')"
  shows "hBinList_inv (h_binList h') \<and> counted (h_binList h')"
  using assms
proof (induction vs arbitrary: h)
  case Nil
  then show ?case by simp
next
  case (Cons v vs)
  from Cons.prems(3) obtain h1 where u: "Update h v = Some (Inr h1)"
    and r: "Updates h1 vs = Some (Inr h')"
    by (auto split: option.splits sum.splits)
  from u obtain k l1 where "update (h_binList h) k 1 = Some (Inr l1)" and "h_binList h1 = l1"
    by (auto simp: Update_def split: option.splits sum.splits)
  with update_wf [OF Cons.prems(1,2)] have "hBinList_inv (h_binList h1) \<and> counted (h_binList h1)"
    by blast
  with Cons.IH r show ?case by blast
qed

lemma new_wf: "hBinList_inv newBinList \<and> counted newBinList"
  by (simp add: hBinList_inv_def counted_def bins_of_def newBinList_def ascending_def)

text \<open>
  Claim C5. On a histogram whose bin list satisfies the invariant and whose counter
  agrees with the chain, as on every list built by \<^verbatim>\<open>update\<close>, and which holds at least one
  bin, \<^verbatim>\<open>Percentile(0)\<close> is the decoded key of the first bin of the chain and
  \<^verbatim>\<open>Percentile(100)\<close> the decoded key of its last bin; these are the lowest and the highest
  key of the chain.
\<close>

theorem Percentile_extremes:
  assumes inv: "hBinList_inv (h_binList h)"
    and cnt: "counted (h_binList h)"
    and bins: "BinCount h \<noteq> 0"
  shows "\<exists>as. bins_of (h_binList h) = Some as \<and> as \<noteq> [] \<and>
           Percentile h (Finite 0) =
             Some (decode (h_codec h) (b_value (l_store (h_binList h) ! hd as))) \<and>
           Percentile h (Finite 100) =
             Some (decode (h_codec h) (b_value (l_store (h_binList h) ! last as))) \<and>
           (\<forall>a\<in>set as.
              b_value (l_store (h_binList h) ! hd as) \<le> b_value (l_store (h_binList h) ! a) \<and>
              b_value (l_store (h_binList h) ! a) \<le> b_value (l_store (h_binList h) ! last as))"
proof -
  let ?l = "h_binList h"
  from inv obtain as where b: "bins_of ?l = Some as" and asc: "ascending (l_store ?l) as"
    by (auto simp: hBinList_inv_def split: option.splits)
  from b asc have ch: "chain (l_store ?l) (l_head ?l) as"
    by (simp add: bins_of_iff)
  from cnt b bins have ne: "as \<noteq> []"
    by (auto simp: counted_def BinCount_def)
  from bins have len: "l_length ?l \<noteq> 0"
    by (simp add: BinCount_def)
  from ne ch have hd: "l_head ?l = Some (hd as)" and hdl: "hd as < length (l_store ?l)"
    by (cases as; simp)+
  have first: "Percentile h (Finite 0) = Some (decode (h_codec h) (b_value (l_store ?l ! hd as)))"
    using len hd hdl
    by (simp add: Percentile_def float64_gt_def first_def Percentile_result_def deref_def)
  from chain_bound [OF ch] ne have ll: "last as < length (l_store ?l)"
    using last_in_set by blast
  have "last_bin ?l = Some (Inr (Some (last as)))"
    unfolding last_bin_def by (rule last_loop_chain [OF ch ne])
  then have lst: "Percentile h (Finite 100) =
      Some (decode (h_codec h) (b_value (l_store ?l ! last as)))"
    using len ll
    by (simp add: Percentile_def float64_gt_def Percentile_result_def deref_def)
  from b ne first lst ascending_extremes [OF asc] show ?thesis
    by blast
qed

theorem Percentile_extremes_witness:
  "Updates \<lparr>h_codec = DefaultCodec 1, h_binList = newBinList\<rparr> [0, 1, 2, 3, 4] =
     Some (Inr linear_hstg) \<and>
   hBinList_inv (h_binList linear_hstg) \<and> counted (h_binList linear_hstg) \<and>
   BinCount linear_hstg \<noteq> 0 \<and>
   Percentile linear_hstg (Finite 0) = Some (Inr 0) \<and>
   Percentile linear_hstg (Finite 100) = Some (Inr 4)"
proof -
  have b: "bins_of (h_binList linear_hstg) = Some [0, 1, 2, 3, 4]"
    by (simp add: linear_hstg_def bins_of_def)
  have inv: "hBinList_inv (h_binList linear_hstg)"
    unfolding hBinList_inv_def b by (simp add: linear_hstg_def ascending_def)
  have cnt: "counted (h_binList linear_hstg)"
    unfolding counted_def b by (simp add: linear_hstg_def)
  have bc: "BinCount linear_hstg \<noteq> 0"
    by (simp add: BinCount_def linear_hstg_def)
  have up: "Updates \<lparr>h_codec = DefaultCodec 1, h_binList = newBinList\<rparr> [0, 1, 2, 3, 4] =
      Some (Inr linear_hstg)"
    by (simp add: linear_hstg_def Update_def defaultCodec_encode_def newBinList_def update_def
        update_from_def binFor.simps binFor_insert_def deref_def hBin_update_def Let_def)
  from Percentile_extremes [OF inv cnt bc] b
  have "Percentile linear_hstg (Finite 0) =
          Some (decode (h_codec linear_hstg) (b_value (l_store (h_binList linear_hstg) ! 0)))"
    and "Percentile linear_hstg (Finite 100) =
          Some (decode (h_codec linear_hstg) (b_value (l_store (h_binList linear_hstg) ! 4)))"
    by auto
  then have "Percentile linear_hstg (Finite 0) = Some (Inr 0)"
    and "Percentile linear_hstg (Finite 100) = Some (Inr 4)"
    by (simp_all add: linear_hstg_def defaultCodec_decode_def)
  with up inv cnt bc show ?thesis by simp
qed

lemma unat_sum_list:
  "unat (sum_list (ws :: uint list)) = sum_list (map unat ws) mod 2 ^ 64"
proof (induction ws)
  case Nil
  then show ?case by simp
next
  case (Cons w ws)
  have "unat (w + sum_list ws) = (unat w + unat (sum_list ws)) mod 2 ^ 64"
    by (simp add: unat_word_ariths)
  also have "\<dots> = (unat w + sum_list (map unat ws) mod 2 ^ 64) mod 2 ^ 64"
    by (simp only: Cons.IH)
  also have "\<dots> = (unat w + sum_list (map unat ws)) mod 2 ^ 64"
    by (rule mod_add_right_eq)
  finally show ?case by simp
qed

lemma updates_totals:
  "\<exists>l as. updates newBinList us = Some (Inr l) \<and> list_inv l as \<and>
          l_totalFreq l = sum_list (map snd us) \<and>
          l_length l = of_nat (length as) \<and> length as = card (fst ` set us)"
proof -
  from updates_correct [OF list_inv_new, of us]
  obtain l as where r: "updates newBinList us = Some (Inr l)" and inv: "list_inv l as"
    and k: "keys_of (l_store l) as = keys_of (l_store newBinList) [] \<union> fst ` set us"
    and t: "l_totalFreq l = l_totalFreq newBinList + sum_list (map snd us)"
    and n: "l_length newBinList = of_nat (length ([] :: addr list)) \<longrightarrow> l_length l = of_nat (length as)"
    by blast
  from inv have "ascending (l_store l) as"
    by (simp add: list_inv_def)
  from ascending_card [OF this] k have "length as = card (fst ` set us)"
    by (simp add: keys_of_def)
  moreover from t have "l_totalFreq l = sum_list (map snd us)"
    by (simp add: newBinList_def)
  moreover from n have "l_length l = of_nat (length as)"
    by (simp add: newBinList_def)
  ultimately show ?thesis
    using r inv by blast
qed

lemma updates_counted:
  "\<exists>l. updates newBinList us = Some (Inr l) \<and> hBinList_inv l \<and> counted l"
proof -
  from updates_totals [of us]
  obtain l as where r: "updates newBinList us = Some (Inr l)" and inv: "list_inv l as"
    and n: "l_length l = of_nat (length as)"
    by blast
  from inv have "bins_of l = Some as"
    by (simp add: list_inv_def bins_of_iff)
  with n have "counted l"
    by (simp add: counted_def)
  moreover from inv have "hBinList_inv l"
    unfolding hBinList_inv_iff by blast
  ultimately show ?thesis
    using r by blast
qed

text \<open>
  Claim C4, as the code has it. After any sequence of \<^verbatim>\<open>update\<close> calls on a fresh list,
  which all return, the total frequency is the sum of the frequencies passed and the
  length is the number of distinct keys passed, both modulo \<open>2 ^ 64\<close>: they are \<^verbatim>\<open>uint\<close>
  values, and the additions of \<^verbatim>\<open>update\<close> and \<^verbatim>\<open>binFor\<close> wrap around.
\<close>

theorem update_totals_mod:
  "\<exists>l. updates newBinList us = Some (Inr l) \<and>
        unat (l_totalFreq l) = sum_list (map (\<lambda>u. unat (snd u)) us) mod 2 ^ 64 \<and>
        unat (l_length l) = card (fst ` set us) mod 2 ^ 64"
proof -
  from updates_totals [of us]
  obtain l and as :: "addr list" where r: "updates newBinList us = Some (Inr l)"
    and t: "l_totalFreq l = sum_list (map snd us)"
    and n: "l_length l = of_nat (length as)" and c: "length as = card (fst ` set us)"
    by blast
  have "unat (l_totalFreq l) = sum_list (map (\<lambda>u. unat (snd u)) us) mod 2 ^ 64"
    unfolding t unat_sum_list by (simp add: comp_def)
  moreover have "unat (l_length l) = card (fst ` set us) mod 2 ^ 64"
    unfolding n c [symmetric] by (simp add: unat_of_nat)
  ultimately show ?thesis
    using r by blast
qed

text \<open>
  Claim C4, as it is stated, fails where the sum passes \<open>2 ^ 64\<close>: two updates of the key 0
  with the frequencies \<open>2 ^ 64 - 1\<close> and 1 leave the total frequency 0, and the sum of the
  two frequencies is \<open>2 ^ 64\<close>.
\<close>

theorem update_totals_overflow:
  "updates newBinList [(0, 18446744073709551615), (0, 1)] =
     Some (Inr \<lparr>l_store = [\<lparr>b_value = 0, b_freq = 0, b_next = None\<rparr>],
                l_length = 1, l_totalFreq = 0, l_head = Some 0, l_curr = Some 0\<rparr>) \<and>
   unat (l_totalFreq
           \<lparr>l_store = [\<lparr>b_value = 0, b_freq = 0, b_next = None\<rparr>],
            l_length = 1, l_totalFreq = 0, l_head = Some 0, l_curr = Some 0\<rparr>) = 0 \<and>
   sum_list (map unat [18446744073709551615, 1 :: uint]) = 18446744073709551616"
  by (simp add: newBinList_def update_def update_from_def binFor.simps binFor_insert_def
      deref_def hBin_update_def Let_def)

end
